theory Spec2Isabelle
  imports Main
begin

section \<open>The image toggle gallery\<close>

text \<open>
  A shallow embedding of \<^verbatim>\<open>LeetCodeTraining/image_toggle_gallery.py\<close>: the class
  \<^verbatim>\<open>ImageToggleGallery\<close>, its public operations and its three event handlers.
  Every method takes the gallery and returns the updated one; a Python
  \<^verbatim>\<open>KeyError\<close> is the left injection of a sum. \<^verbatim>\<open>display()\<close> hands the container to the
  host and changes nothing in the gallery, and \<^verbatim>\<open>make_img_html\<close> only builds the strings
  that a caller may pass in; neither is needed below.
\<close>

subsection \<open>Errors\<close>

datatype error =
    KeyError string
  | NoWidget string
  | NotifyDepth

text \<open>
  \<open>KeyError k\<close> is what a failed subscript \<^verbatim>\<open>d[k]\<close> raises. \<open>NoWidget n\<close> marks an event
  for a toggle that the gallery does not hold (the host cannot deliver it), and
  \<open>NotifyDepth\<close> a change notification nested deeper than the model unrolls; lemma
  \<open>on_toggle_unfold\<close> below shows that the handler never gets there.
\<close>

subsection \<open>Ordered dictionaries\<close>

text \<open>
  \<^verbatim>\<open>image_sets\<close> is a Python \<^verbatim>\<open>dict\<close>, which iterates in insertion order; the order
  is the display order, so the dictionary is an association list. Assigning to a key
  that is present keeps the key's position, assigning to a new key appends it, and
  \<^verbatim>\<open>pop\<close> removes the entry.
\<close>

type_synonym pydict = "(string \<times> string) list"

definition dict_keys :: "pydict \<Rightarrow> string list" where
  "dict_keys d = map fst d"

definition dict_get :: "string \<Rightarrow> pydict \<Rightarrow> string option" where
  "dict_get k d = map_of d k"

fun dict_set :: "string \<Rightarrow> string \<Rightarrow> pydict \<Rightarrow> pydict" where
  "dict_set k v [] = [(k, v)]"
| "dict_set k v (p # d) = (if fst p = k then (k, v) # d else p # dict_set k v d)"

fun dict_del :: "string \<Rightarrow> pydict \<Rightarrow> pydict" where
  "dict_del k [] = []"
| "dict_del k (p # d) = (if fst p = k then d else p # dict_del k d)"

subsection \<open>Host widgets\<close>

text \<open>
  A \<^verbatim>\<open>ToggleButton\<close> carries the three traits the gallery sets. An \<^verbatim>\<open>Output\<close> is
  modelled by the calls it has received, oldest first; \<open>shown\<close> is what the region
  displays after them: \<^verbatim>\<open>clear_output()\<close> empties it and \<^verbatim>\<open>display(HTML(h))\<close> adds
  \<open>h\<close>.
\<close>

record toggle_button =
  tb_description :: string
  tb_value :: bool
  tb_button_style :: string

datatype out_call = ClearOutput | Display string

type_synonym region = "out_call list"

fun out_apply :: "out_call \<Rightarrow> string list \<Rightarrow> string list" where
  "out_apply ClearOutput hs = []"
| "out_apply (Display h) hs = hs @ [h]"

definition shown :: "region \<Rightarrow> string list" where
  "shown cs = fold out_apply cs []"

text \<open>
  The tree under \<^verbatim>\<open>container.children\<close>. \<open>ToggleRef n\<close> and \<open>OutputRef n\<close> stand for
  the objects held in \<^verbatim>\<open>_buttons[n]\<close> and \<^verbatim>\<open>_outputs[n]\<close>: \<^verbatim>\<open>refresh\<close> empties both
  dictionaries and replaces the children in the same call, so the tree never shows a
  widget that the dictionaries do not hold.
\<close>

datatype widget =
    VBox "widget list"
  | ToggleRef string
  | OutputRef string
  | CloseAllButton

record change =
  ch_name :: string
  ch_new :: bool

subsection \<open>The gallery\<close>

record gallery =
  image_sets :: pydict
  include_close_all :: bool
  button_style :: string
  layout :: "string option"
  buttons :: "string \<rightharpoonup> toggle_button"
  outputs :: "string \<rightharpoonup> region"
  children :: "widget list"

type_synonym observer = "change \<Rightarrow> string \<Rightarrow> gallery \<Rightarrow> error + gallery"

subsection \<open>Public operations\<close>

definition add_set :: "string \<Rightarrow> string \<Rightarrow> gallery \<Rightarrow> gallery" where
  "add_set name html s = s\<lparr>image_sets := dict_set name html (image_sets s)\<rparr>"

definition remove_set :: "string \<Rightarrow> gallery \<Rightarrow> gallery" where
  "remove_set name s = s\<lparr>image_sets := dict_del name (image_sets s)\<rparr>"

definition replace_set :: "string \<Rightarrow> string \<Rightarrow> gallery \<Rightarrow> gallery" where
  "replace_set name html s = s\<lparr>image_sets := dict_set name html (image_sets s)\<rparr>"

text \<open>
  \<^verbatim>\<open>self.image_sets[new] = self.image_sets.pop(old)\<close>: the right-hand side runs first,
  so the entry is popped before the assignment. \<^verbatim>\<open>pop(old)\<close> without a default raises on
  a missing key.
\<close>

definition rename_set :: "string \<Rightarrow> string \<Rightarrow> gallery \<Rightarrow> error + gallery" where
  "rename_set old new s =
     (if old \<in> set (dict_keys (image_sets s)) then
        (case dict_get old (image_sets s) of
           None \<Rightarrow> Inl (KeyError old)
         | Some html \<Rightarrow>
             Inr (s\<lparr>image_sets := dict_set new html (dict_del old (image_sets s))\<rparr>))
      else Inr s)"

definition new_button :: "string \<Rightarrow> string \<Rightarrow> toggle_button" where
  "new_button name style =
     \<lparr>tb_description = ''Show '' @ name, tb_value = False, tb_button_style = style\<rparr>"

definition refresh_row :: "string \<Rightarrow> gallery \<times> widget list \<Rightarrow> gallery \<times> widget list" where
  "refresh_row name = (\<lambda>(s, rows).
     (s\<lparr>buttons := (buttons s)(name \<mapsto> new_button name (button_style s)),
        outputs := (outputs s)(name \<mapsto> [])\<rparr>,
      rows @ [VBox [ToggleRef name, OutputRef name]]))"

definition refresh :: "gallery \<Rightarrow> gallery" where
  "refresh s =
     (let s1 = s\<lparr>buttons := Map.empty, outputs := Map.empty\<rparr>;
          (s2, rows) = fold refresh_row (dict_keys (image_sets s1)) (s1, [])
      in if include_close_all s2
         then s2\<lparr>children := [VBox [CloseAllButton, VBox rows]]\<rparr>
         else s2\<lparr>children := [VBox rows]\<rparr>)"

definition init :: "pydict \<Rightarrow> bool \<Rightarrow> string \<Rightarrow> string option \<Rightarrow> gallery" where
  "init sets close_all style lay =
     refresh \<lparr>image_sets = sets, include_close_all = close_all, button_style = style,
              layout = lay, buttons = Map.empty, outputs = Map.empty, children = []\<rparr>"

subsection \<open>Handlers\<close>

text \<open>
  \<^verbatim>\<open>with self._outputs[name]: clear_output()\<close>: the subscript may raise, the call is
  recorded in the region.
\<close>

definition clear_output :: "string \<Rightarrow> gallery \<Rightarrow> error + gallery" where
  "clear_output name s =
     (case outputs s name of
        None \<Rightarrow> Inl (KeyError name)
      | Some out \<Rightarrow> Inr (s\<lparr>outputs := (outputs s)(name \<mapsto> out @ [ClearOutput])\<rparr>))"

definition hide_html :: "string \<Rightarrow> gallery \<Rightarrow> error + gallery" where
  "hide_html name s = clear_output name s"

text \<open>
  Assigning to \<^verbatim>\<open>value\<close> is an assignment to a trait of the host: when the new value
  differs from the old one the host stores it and calls the observer that \<^verbatim>\<open>refresh\<close>
  registered on the toggle, \<^verbatim>\<open>lambda ch, n=name: self._on_toggle(ch, n)\<close>, before the
  assignment returns; an assignment of the value already held notifies nobody. The
  observer is registered with \<^verbatim>\<open>names="value"\<close>, so the change it receives is \<open>chg v\<close>. The
  observer is a parameter here, and the handler is tied to it further down.
\<close>

definition chg :: "bool \<Rightarrow> change" where
  "chg v = \<lparr>ch_name = ''value'', ch_new = v\<rparr>"

definition set_value :: "observer \<Rightarrow> string \<Rightarrow> bool \<Rightarrow> gallery \<Rightarrow> error + gallery" where
  "set_value obs name v s =
     (case buttons s name of
        None \<Rightarrow> Inl (KeyError name)
      | Some b \<Rightarrow>
          if tb_value b = v then Inr s
          else obs (chg v) name
                 (s\<lparr>buttons := (buttons s)(name \<mapsto> b\<lparr>tb_value := v\<rparr>)\<rparr>))"

definition set_description :: "string \<Rightarrow> string \<Rightarrow> gallery \<Rightarrow> error + gallery" where
  "set_description name d s =
     (case buttons s name of
        None \<Rightarrow> Inl (KeyError name)
      | Some b \<Rightarrow> Inr (s\<lparr>buttons := (buttons s)(name \<mapsto> b\<lparr>tb_description := d\<rparr>)\<rparr>))"

text \<open>A \<^verbatim>\<open>for\<close> loop over names; an exception in the body ends it.\<close>

fun for_each :: "(string \<Rightarrow> gallery \<Rightarrow> error + gallery) \<Rightarrow> string list \<Rightarrow> gallery
    \<Rightarrow> error + gallery" where
  "for_each body [] s = Inr s"
| "for_each body (n # ns) s =
     (case body n s of Inl e \<Rightarrow> Inl e | Inr s' \<Rightarrow> for_each body ns s')"

text \<open>
  \<^verbatim>\<open>_show_html\<close> in its two parts. \<open>render\<close> is the first block,
  \<^verbatim>\<open>with self._outputs[name]: clear_output(); display(HTML(self.image_sets[name]))\<close>,
  with its lookups in the order in which Python evaluates them. \<open>close_other\<close> is the
  body of the loop \<^verbatim>\<open>for other in self.image_sets\<close>: the region of every other page is
  cleared, and the assignment \<^verbatim>\<open>value = False\<close> is made only when the toggle is open.
\<close>

definition render :: "string \<Rightarrow> gallery \<Rightarrow> error + gallery" where
  "render name s =
     (case clear_output name s of
        Inl e \<Rightarrow> Inl e
      | Inr s1 \<Rightarrow>
          (case dict_get name (image_sets s1) of
             None \<Rightarrow> Inl (KeyError name)
           | Some html \<Rightarrow>
               (case outputs s1 name of
                  None \<Rightarrow> Inl (KeyError name)
                | Some out \<Rightarrow> Inr (s1\<lparr>outputs := (outputs s1)(name \<mapsto> out @ [Display html])\<rparr>))))"

definition close_other :: "observer \<Rightarrow> string \<Rightarrow> string \<Rightarrow> gallery \<Rightarrow> error + gallery" where
  "close_other obs name other s =
     (if other \<noteq> name then
        (case clear_output other s of
           Inl e \<Rightarrow> Inl e
         | Inr s1 \<Rightarrow>
             (case buttons s1 other of
                None \<Rightarrow> Inl (KeyError other)
              | Some b \<Rightarrow> if tb_value b then set_value obs other False s1 else Inr s1))
      else Inr s)"

definition show_html :: "observer \<Rightarrow> string \<Rightarrow> gallery \<Rightarrow> error + gallery" where
  "show_html obs name s =
     (case render name s of
        Inl e \<Rightarrow> Inl e
      | Inr s1 \<Rightarrow> for_each (close_other obs name) (dict_keys (image_sets s1)) s1)"

definition on_toggle_with :: "observer \<Rightarrow> change \<Rightarrow> string \<Rightarrow> gallery \<Rightarrow> error + gallery" where
  "on_toggle_with obs ch name s =
     (if ch_name ch \<noteq> ''value'' then Inr s
      else if ch_new ch then
        (case show_html obs name s of
           Inl e \<Rightarrow> Inl e
         | Inr s1 \<Rightarrow> set_description name (''Hide '' @ name) s1)
      else
        (case hide_html name s of
           Inl e \<Rightarrow> Inl e
         | Inr s1 \<Rightarrow> set_description name (''Show '' @ name) s1))"

text \<open>
  The handler is its own observer: the assignments in \<^verbatim>\<open>_show_html\<close> and
  \<^verbatim>\<open>_close_all\<close> re-enter \<^verbatim>\<open>_on_toggle\<close> through the host. Every such assignment
  stores \<^verbatim>\<open>False\<close>, and the handler assigns nothing when the new value is \<^verbatim>\<open>False\<close>,
  so two levels are all that can happen; \<open>on_toggle_unfold\<close> proves that the definition
  satisfies the recursive equation of the source.
\<close>

definition notify_limit :: observer where
  "notify_limit ch name s = Inl NotifyDepth"

definition on_toggle :: observer where
  "on_toggle = on_toggle_with (on_toggle_with notify_limit)"

text \<open>\<^verbatim>\<open>_close_all\<close>: \<open>close_one\<close> is the body of its loop over \<^verbatim>\<open>self.image_sets\<close>.\<close>

definition close_one :: "string \<Rightarrow> gallery \<Rightarrow> error + gallery" where
  "close_one name s =
     (case buttons s name of
        None \<Rightarrow> Inl (KeyError name)
      | Some b \<Rightarrow>
          (case (if tb_value b then set_value on_toggle name False s else hide_html name s) of
             Inl e \<Rightarrow> Inl e
           | Inr s1 \<Rightarrow> set_description name (''Show '' @ name) s1))"

definition close_all :: "gallery \<Rightarrow> error + gallery" where
  "close_all s = for_each close_one (dict_keys (image_sets s)) s"

subsection \<open>Events of the host\<close>

text \<open>
  A click on the toggle of page \<open>name\<close> flips its value, which is an assignment to the
  trait and so notifies the handler with the new value.
\<close>

definition toggle_event :: "string \<Rightarrow> gallery \<Rightarrow> error + gallery" where
  "toggle_event name s =
     (case buttons s name of
        None \<Rightarrow> Inl (NoWidget name)
      | Some b \<Rightarrow> set_value on_toggle name (\<not> tb_value b) s)"

definition run_toggles :: "string list \<Rightarrow> gallery \<Rightarrow> error + gallery" where
  "run_toggles ns s = for_each toggle_event ns s"

subsection \<open>Sessions\<close>

text \<open>
  A session is a sequence of calls of the public operations and of events that the host
  delivers; it stops at the first exception. A close-all click runs \<^verbatim>\<open>_close_all\<close>
  whether or not the button is in the tree, as a direct call of the method would.
\<close>

datatype gallery_op =
    AddSet string string
  | RemoveSet string
  | ReplaceSet string string
  | RenameSet string string
  | Refresh
  | ToggleEvent string
  | CloseAllClick

fun step :: "gallery_op \<Rightarrow> gallery \<Rightarrow> error + gallery" where
  "step (AddSet name html) s = Inr (add_set name html s)"
| "step (RemoveSet name) s = Inr (remove_set name s)"
| "step (ReplaceSet name html) s = Inr (replace_set name html s)"
| "step (RenameSet old new) s = rename_set old new s"
| "step Refresh s = Inr (refresh s)"
| "step (ToggleEvent name) s = toggle_event name s"
| "step CloseAllClick s = close_all s"

fun run :: "gallery_op list \<Rightarrow> gallery \<Rightarrow> error + gallery" where
  "run [] s = Inr s"
| "run (c # cs) s = (case step c s of Inl e \<Rightarrow> Inl e | Inr s' \<Rightarrow> run cs s')"

text \<open>
  The page set after an operation, and the sessions in which no handler misses a
  widget. \<open>ui\<close> holds the names that have widgets, those of the latest refresh, and \<open>opn\<close>
  the names whose toggle is true. A toggle event needs its toggle. One that closes a page
  needs nothing else. One that opens a page needs the page in the page set and widgets
  for every name of the page set. A close-all click needs widgets for every name of the
  page set. An opening event and a close-all click close the pages of the page set only,
  so a toggle that is true and whose name left the page set stays true.
\<close>

fun page_set_after :: "gallery_op \<Rightarrow> pydict \<Rightarrow> pydict" where
  "page_set_after (AddSet name html) d = dict_set name html d"
| "page_set_after (RemoveSet name) d = dict_del name d"
| "page_set_after (ReplaceSet name html) d = dict_set name html d"
| "page_set_after (RenameSet old new) d =
     (case dict_get old d of None \<Rightarrow> d | Some html \<Rightarrow> dict_set new html (dict_del old d))"
| "page_set_after Refresh d = d"
| "page_set_after (ToggleEvent name) d = d"
| "page_set_after CloseAllClick d = d"

fun in_sync :: "string list \<Rightarrow> string list \<Rightarrow> pydict \<Rightarrow> gallery_op list \<Rightarrow> bool" where
  "in_sync ui opn d [] = True"
| "in_sync ui opn d (Refresh # cs) = in_sync (dict_keys d) [] d cs"
| "in_sync ui opn d (ToggleEvent name # cs) =
     (name \<in> set ui \<and>
      (if name \<in> set opn then in_sync ui (removeAll name opn) d cs
       else name \<in> set (dict_keys d) \<and> set (dict_keys d) \<subseteq> set ui
            \<and> in_sync ui (name # filter (\<lambda>n. n \<notin> set (dict_keys d)) opn) d cs))"
| "in_sync ui opn d (CloseAllClick # cs) =
     (set (dict_keys d) \<subseteq> set ui
      \<and> in_sync ui (filter (\<lambda>n. n \<notin> set (dict_keys d)) opn) d cs)"
| "in_sync ui opn d (c # cs) = in_sync ui opn (page_set_after c d) cs"

subsection \<open>Observations\<close>

text \<open>
  The display order of the pages is the order of the toggles in the tree that
  \<^verbatim>\<open>refresh\<close> hands to the container.
\<close>

fun toggles_of :: "widget \<Rightarrow> string list" where
  "toggles_of (VBox ws) = concat (map toggles_of ws)"
| "toggles_of (ToggleRef n) = [n]"
| "toggles_of (OutputRef n) = []"
| "toggles_of CloseAllButton = []"

definition page_order :: "gallery \<Rightarrow> string list" where
  "page_order s = concat (map toggles_of (children s))"

definition row :: "string \<Rightarrow> widget" where
  "row name = VBox [ToggleRef name, OutputRef name]"

definition page_open :: "gallery \<Rightarrow> string \<Rightarrow> bool" where
  "page_open s n = (case buttons s n of None \<Rightarrow> False | Some b \<Rightarrow> tb_value b)"

text \<open>What the user sees of page \<open>n\<close>: its toggle and the content of its region.\<close>

definition page_view :: "gallery \<Rightarrow> string \<Rightarrow> (toggle_button \<times> string list) option" where
  "page_view s n =
     (case buttons s n of
        None \<Rightarrow> None
      | Some b \<Rightarrow> (case outputs s n of None \<Rightarrow> None | Some out \<Rightarrow> Some (b, shown out)))"

definition open_button :: "string \<Rightarrow> string \<Rightarrow> toggle_button" where
  "open_button name style =
     \<lparr>tb_description = ''Hide '' @ name, tb_value = True, tb_button_style = style\<rparr>"

subsection \<open>The effect of closing one page\<close>

text \<open>
  What the loop of \<^verbatim>\<open>_show_html\<close> does to another page, in closed form: the region
  receives one \<^verbatim>\<open>clear_output()\<close> from the loop body and, when the toggle was open,
  a second one from the handler that the assignment \<^verbatim>\<open>value = False\<close> re-enters, which
  also restores the label. These are proof devices; the lemmas \<open>close_other_shut\<close> and
  \<open>for_each_close_other\<close> relate them to the handlers.
\<close>

definition shut_button :: "string \<Rightarrow> toggle_button \<Rightarrow> toggle_button" where
  "shut_button n b =
     (if tb_value b then b\<lparr>tb_value := False, tb_description := ''Show '' @ n\<rparr> else b)"

definition shut_region :: "toggle_button \<Rightarrow> region \<Rightarrow> region" where
  "shut_region b out =
     (if tb_value b then out @ [ClearOutput, ClearOutput] else out @ [ClearOutput])"

definition shut :: "string \<Rightarrow> gallery \<Rightarrow> gallery" where
  "shut n s =
     (case buttons s n of
        None \<Rightarrow> s
      | Some b \<Rightarrow>
          s\<lparr>buttons := (buttons s)(n \<mapsto> shut_button n b),
            outputs := (outputs s)(n := map_option (shut_region b) (outputs s n))\<rparr>)"

text \<open>
  Likewise for one round of the loop of \<^verbatim>\<open>_close_all\<close>: the toggle ends closed with the
  label \<open>Show n\<close> and the region receives one \<^verbatim>\<open>clear_output()\<close>, from the re-entered
  handler when the toggle was open and from \<^verbatim>\<open>_hide_html\<close> otherwise.
\<close>

definition closed_page :: "string \<Rightarrow> gallery \<Rightarrow> gallery" where
  "closed_page n s =
     (case buttons s n of
        None \<Rightarrow> s
      | Some b \<Rightarrow>
          s\<lparr>buttons := (buttons s)(n \<mapsto> b\<lparr>tb_value := False, tb_description := ''Show '' @ n\<rparr>),
            outputs := (outputs s)(n := map_option (\<lambda>out. out @ [ClearOutput]) (outputs s n))\<rparr>)"

subsection \<open>Invariants\<close>

text \<open>
  \<open>synced\<close>: the widgets are those of the page set, which \<^verbatim>\<open>refresh\<close> establishes.
  \<open>settled\<close>: moreover every page is either closed (label \<open>Show n\<close>, empty region) or
  open (label \<open>Hide n\<close>, region showing its HTML), and no two pages are open.
\<close>

definition synced :: "gallery \<Rightarrow> bool" where
  "synced s \<longleftrightarrow>
     distinct (dict_keys (image_sets s))
     \<and> dom (buttons s) = set (dict_keys (image_sets s))
     \<and> dom (outputs s) = set (dict_keys (image_sets s))"

definition settled :: "gallery \<Rightarrow> bool" where
  "settled s \<longleftrightarrow>
     synced s
     \<and> (\<forall>n \<in> set (dict_keys (image_sets s)).
           page_view s n = Some (new_button n (button_style s), [])
           \<or> (\<exists>html. dict_get n (image_sets s) = Some html
                 \<and> page_view s n = Some (open_button n (button_style s), [html])))
     \<and> (\<forall>n m. page_open s n \<and> page_open s m \<longrightarrow> n = m)"

text \<open>
  \<open>tracks\<close> relates a gallery to what \<open>in_sync\<close> follows through a session: the names with
  widgets and the names whose toggle is true.
\<close>

definition tracks :: "string list \<Rightarrow> string list \<Rightarrow> gallery \<Rightarrow> bool" where
  "tracks ui opn s \<longleftrightarrow>
     distinct (dict_keys (image_sets s))
     \<and> dom (buttons s) = set ui \<and> dom (outputs s) = set ui
     \<and> (\<forall>n. page_open s n \<longleftrightarrow> n \<in> set opn)"

subsection \<open>An example gallery\<close>

text \<open>A gallery of two pages with the close-all button, as the constructor builds it.\<close>

definition demo :: gallery where
  "demo = init [(''A'', ''<img a>''), (''B'', ''<img b>'')] True '''' None"

text \<open>The same gallery after a click on the toggle of \<open>A\<close> (lemma \<open>demo_A_reached\<close>).\<close>

definition demo_A :: gallery where
  "demo_A =
     demo\<lparr>buttons := (buttons demo)(''A'' \<mapsto> open_button ''A'' ''''),
          outputs := (outputs demo)(''A'' \<mapsto> [ClearOutput, Display ''<img a>''],
                                    ''B'' \<mapsto> [ClearOutput])\<rparr>"

text \<open>And after \<^verbatim>\<open>remove_set("A")\<close> with no refresh: \<open>A\<close> keeps its widgets and stays open.\<close>

definition demo_A_removed :: gallery where
  "demo_A_removed = remove_set ''A'' demo_A"

section \<open>Properties\<close>

subsection \<open>The ordered dictionary\<close>

lemma dict_set_idem: "dict_set k v (dict_set k v d) = dict_set k v d"
  by (induction d) auto

lemma dict_del_absent: "k \<notin> set (dict_keys d) \<Longrightarrow> dict_del k d = d"
  by (induction d) (auto simp: dict_keys_def)

subsection \<open>Rebuilding the tree\<close>

lemma refresh_row_simp:
  "refresh_row k (s, rows) =
     (s\<lparr>buttons := (buttons s)(k \<mapsto> new_button k (button_style s)),
        outputs := (outputs s)(k \<mapsto> [])\<rparr>, rows @ [row k])"
  by (simp add: refresh_row_def row_def)

lemma fold_refresh_row:
  "fold refresh_row ks (s, rows) =
     (s\<lparr>buttons := (\<lambda>n. if n \<in> set ks then Some (new_button n (button_style s)) else buttons s n),
        outputs := (\<lambda>n. if n \<in> set ks then Some [] else outputs s n)\<rparr>,
      rows @ map row ks)"
proof (induction ks arbitrary: s rows)
  case Nil
  show ?case by simp
next
  case (Cons k ks)
  show ?case
    by (simp add: Cons.IH refresh_row_simp fun_eq_iff)
qed

lemma refresh_eq:
  "refresh s =
     s\<lparr>buttons := (\<lambda>n. if n \<in> set (dict_keys (image_sets s))
                        then Some (new_button n (button_style s)) else None),
       outputs := (\<lambda>n. if n \<in> set (dict_keys (image_sets s)) then Some [] else None),
       children := (if include_close_all s
                    then [VBox [CloseAllButton, VBox (map row (dict_keys (image_sets s)))]]
                    else [VBox (map row (dict_keys (image_sets s)))])\<rparr>"
  by (simp add: refresh_def fold_refresh_row Let_def cong: if_cong)

lemma toggles_of_rows: "concat (map (toggles_of \<circ> row) ks) = ks"
  by (induction ks) (auto simp: row_def)

lemma page_order_refresh: "page_order (refresh s) = dict_keys (image_sets s)"
  by (simp add: refresh_eq page_order_def toggles_of_rows)

lemma image_sets_refresh: "image_sets (refresh s) = image_sets s"
  by (simp add: refresh_eq)

lemma image_sets_demo: "image_sets demo = [(''A'', ''<img a>''), (''B'', ''<img b>'')]"
  by (simp add: demo_def init_def image_sets_refresh)


subsection \<open>The handlers in closed form\<close>

lemma clear_output_Some:
  "outputs s n = Some out \<Longrightarrow>
   clear_output n s = Inr (s\<lparr>outputs := (outputs s)(n \<mapsto> out @ [ClearOutput])\<rparr>)"
  by (simp add: clear_output_def)

lemma set_description_Some:
  "buttons s n = Some b \<Longrightarrow>
   set_description n d s = Inr (s\<lparr>buttons := (buttons s)(n \<mapsto> b\<lparr>tb_description := d\<rparr>)\<rparr>)"
  by (simp add: set_description_def)

lemma on_toggle_with_hide:
  assumes "buttons s n = Some b" and "outputs s n = Some out"
  shows "on_toggle_with obs (chg False) n s =
           Inr (s\<lparr>buttons := (buttons s)(n \<mapsto> b\<lparr>tb_description := ''Show '' @ n\<rparr>),
                  outputs := (outputs s)(n \<mapsto> out @ [ClearOutput])\<rparr>)"
  using assms
  by (simp add: on_toggle_with_def chg_def hide_html_def clear_output_def set_description_def)

lemma on_toggle_with_False_indep:
  "on_toggle_with obs (chg False) n s = on_toggle_with obs' (chg False) n s"
  by (simp add: on_toggle_with_def chg_def)

lemma set_value_cong:
  assumes "\<And>n s. obs (chg v) n s = obs' (chg v) n s"
  shows "set_value obs n v s = set_value obs' n v s"
  using assms by (simp add: set_value_def chg_def split: option.splits)

lemma close_other_cong:
  assumes "\<And>n s. obs (chg False) n s = obs' (chg False) n s"
  shows "close_other obs name other s = close_other obs' name other s"
  using set_value_cong [of obs False obs', OF assms]
  by (simp add: close_other_def split: sum.splits option.splits)

lemma show_html_cong:
  assumes "\<And>n s. obs (chg False) n s = obs' (chg False) n s"
  shows "show_html obs name s = show_html obs' name s"
proof -
  have h: "close_other obs name = close_other obs' name"
    using close_other_cong [of obs obs', OF assms] by (simp add: fun_eq_iff)
  show ?thesis unfolding show_html_def h by (rule refl)
qed

lemma on_toggle_with_cong:
  assumes "\<And>n s. obs (chg False) n s = obs' (chg False) n s"
  shows "on_toggle_with obs ch name s = on_toggle_with obs' ch name s"
  using show_html_cong [of obs obs', OF assms] by (simp add: on_toggle_with_def)

lemma on_toggle_unfold: "on_toggle = on_toggle_with on_toggle"
proof -
  have "on_toggle_with (on_toggle_with notify_limit) ch n s =
        on_toggle_with (on_toggle_with (on_toggle_with notify_limit)) ch n s" for ch n s
    by (rule on_toggle_with_cong) (rule on_toggle_with_False_indep)
  then show ?thesis by (simp add: on_toggle_def fun_eq_iff)
qed

lemma on_toggle_hide:
  assumes "buttons s n = Some b" and "outputs s n = Some out"
  shows "on_toggle (chg False) n s =
           Inr (s\<lparr>buttons := (buttons s)(n \<mapsto> b\<lparr>tb_description := ''Show '' @ n\<rparr>),
                  outputs := (outputs s)(n \<mapsto> out @ [ClearOutput])\<rparr>)"
  unfolding on_toggle_def using assms by (rule on_toggle_with_hide)

lemma set_value_False_open:
  assumes "buttons s n = Some b" and "tb_value b" and "outputs s n = Some out"
  shows "set_value on_toggle n False s =
           Inr (s\<lparr>buttons := (buttons s)(n \<mapsto> b\<lparr>tb_value := False, tb_description := ''Show '' @ n\<rparr>),
                  outputs := (outputs s)(n \<mapsto> out @ [ClearOutput])\<rparr>)"
proof -
  let ?s1 = "s\<lparr>buttons := (buttons s)(n \<mapsto> b\<lparr>tb_value := False\<rparr>)\<rparr>"
  have "set_value on_toggle n False s = on_toggle (chg False) n ?s1"
    using assms by (simp add: set_value_def chg_def)
  also have "\<dots> = Inr (?s1\<lparr>buttons := (buttons ?s1)(n \<mapsto> (b\<lparr>tb_value := False\<rparr>)\<lparr>tb_description := ''Show '' @ n\<rparr>),
                  outputs := (outputs ?s1)(n \<mapsto> out @ [ClearOutput])\<rparr>)"
    by (rule on_toggle_hide) (simp_all add: assms)
  finally show ?thesis by simp
qed

lemma close_other_shut:
  assumes "other \<noteq> name" and "buttons s other = Some b" and "outputs s other = Some out"
  shows "close_other on_toggle name other s = Inr (shut other s)"
proof (cases "tb_value b")
  case True
  let ?s1 = "s\<lparr>outputs := (outputs s)(other \<mapsto> out @ [ClearOutput])\<rparr>"
  have "set_value on_toggle other False ?s1 =
          Inr (?s1\<lparr>buttons := (buttons ?s1)(other \<mapsto> b\<lparr>tb_value := False, tb_description := ''Show '' @ other\<rparr>),
                  outputs := (outputs ?s1)(other \<mapsto> (out @ [ClearOutput]) @ [ClearOutput])\<rparr>)"
    by (rule set_value_False_open) (simp_all add: assms True)
  then show ?thesis
    using assms True
    by (simp add: close_other_def clear_output_def shut_def shut_button_def shut_region_def)
next
  case False
  then show ?thesis
    using assms
    by (simp add: close_other_def clear_output_def shut_def shut_button_def shut_region_def
        map_upd_triv)
qed

lemma dom_buttons_shut: "dom (buttons (shut n s)) = dom (buttons s)"
  by (auto simp: shut_def split: option.splits if_splits)

lemma dom_outputs_shut: "dom (outputs (shut n s)) = dom (outputs s)"
  by (auto simp: shut_def dom_def split: option.splits if_splits)

lemma image_sets_shut: "image_sets (shut n s) = image_sets s"
  by (simp add: shut_def split: option.splits)

lemma for_each_close_other:
  assumes "set ks \<subseteq> dom (buttons s)" and "set ks \<subseteq> dom (outputs s)"
  shows "for_each (close_other on_toggle name) ks s =
           Inr (fold shut (filter (\<lambda>k. k \<noteq> name) ks) s)"
  using assms
proof (induction ks arbitrary: s)
  case Nil
  show ?case by simp
next
  case (Cons k ks)
  show ?case
  proof (cases "k = name")
    case True
    then have "close_other on_toggle name k s = Inr s"
      by (simp add: close_other_def)
    with True Cons show ?thesis by simp
  next
    case False
    from Cons.prems obtain b out where "buttons s k = Some b" "outputs s k = Some out"
      by auto
    with False have step: "close_other on_toggle name k s = Inr (shut k s)"
      by (simp add: close_other_shut)
    have "for_each (close_other on_toggle name) ks (shut k s) =
            Inr (fold shut (filter (\<lambda>k. k \<noteq> name) ks) (shut k s))"
      using Cons.prems by (intro Cons.IH) (simp_all add: dom_buttons_shut dom_outputs_shut)
    with step False show ?thesis by simp
  qed
qed

lemma fold_shut_eq:
  assumes "distinct ks"
  shows "fold shut ks s =
           s\<lparr>buttons := (\<lambda>n. if n \<in> set ks then map_option (shut_button n) (buttons s n)
                              else buttons s n),
             outputs := (\<lambda>n. if n \<in> set ks
                              then (case buttons s n of
                                      None \<Rightarrow> outputs s n
                                    | Some b \<Rightarrow> map_option (shut_region b) (outputs s n))
                              else outputs s n)\<rparr>"
  using assms
proof (induction ks arbitrary: s)
  case Nil
  show ?case by simp
next
  case (Cons k ks)
  then have "k \<notin> set ks" and "distinct ks" by simp_all
  then show ?case
    by (simp add: Cons.IH) (auto simp: shut_def fun_eq_iff split: option.splits)
qed

lemma render_Some:
  assumes "outputs s name = Some out" and "dict_get name (image_sets s) = Some html"
  shows "render name s =
           Inr (s\<lparr>outputs := (outputs s)(name \<mapsto> out @ [ClearOutput, Display html])\<rparr>)"
  using assms by (simp add: render_def clear_output_def)

lemma show_html_eq:
  assumes "distinct (dict_keys (image_sets s))"
    and "set (dict_keys (image_sets s)) \<subseteq> dom (buttons s)"
    and "set (dict_keys (image_sets s)) \<subseteq> dom (outputs s)"
    and "outputs s name = Some out"
    and "dict_get name (image_sets s) = Some html"
  shows "show_html on_toggle name s =
           Inr (s\<lparr>buttons := (\<lambda>n. if n \<in> set (dict_keys (image_sets s)) \<and> n \<noteq> name
                                   then map_option (shut_button n) (buttons s n)
                                   else buttons s n),
                  outputs := (\<lambda>n. if n = name then Some (out @ [ClearOutput, Display html])
                                   else if n \<in> set (dict_keys (image_sets s))
                                   then (case buttons s n of
                                           None \<Rightarrow> outputs s n
                                         | Some b \<Rightarrow> map_option (shut_region b) (outputs s n))
                                   else outputs s n)\<rparr>)"
    (is "_ = Inr ?goal")
proof -
  let ?ks = "dict_keys (image_sets s)"
  let ?s1 = "s\<lparr>outputs := (outputs s)(name \<mapsto> out @ [ClearOutput, Display html])\<rparr>"
  have r: "render name s = Inr ?s1"
    using assms(4,5) by (rule render_Some)
  have "for_each (close_other on_toggle name) ?ks ?s1 =
          Inr (fold shut (filter (\<lambda>k. k \<noteq> name) ?ks) ?s1)"
    using assms(2,3) by (intro for_each_close_other) auto
  also have "fold shut (filter (\<lambda>k. k \<noteq> name) ?ks) ?s1 =
      ?s1\<lparr>buttons := (\<lambda>n. if n \<in> set (filter (\<lambda>k. k \<noteq> name) ?ks)
                              then map_option (shut_button n) (buttons ?s1 n)
                              else buttons ?s1 n),
             outputs := (\<lambda>n. if n \<in> set (filter (\<lambda>k. k \<noteq> name) ?ks)
                              then (case buttons ?s1 n of
                                      None \<Rightarrow> outputs ?s1 n
                                    | Some b \<Rightarrow> map_option (shut_region b) (outputs ?s1 n))
                              else outputs ?s1 n)\<rparr>"
    using assms(1) by (intro fold_shut_eq) simp
  also have "\<dots> = ?goal"
    by (rule gallery.equality) (auto simp: fun_eq_iff split: option.splits)
  finally have "for_each (close_other on_toggle name) ?ks ?s1 = Inr ?goal" .
  then show ?thesis
    by (simp add: show_html_def r)
qed

lemma toggle_event_open:
  assumes "distinct (dict_keys (image_sets s))"
    and "set (dict_keys (image_sets s)) \<subseteq> dom (buttons s)"
    and "set (dict_keys (image_sets s)) \<subseteq> dom (outputs s)"
    and "buttons s name = Some b" and "\<not> tb_value b"
    and "outputs s name = Some out"
    and "dict_get name (image_sets s) = Some html"
  shows "toggle_event name s =
           Inr (s\<lparr>buttons := (\<lambda>n. if n = name
                                   then Some (b\<lparr>tb_value := True, tb_description := ''Hide '' @ name\<rparr>)
                                   else if n \<in> set (dict_keys (image_sets s))
                                   then map_option (shut_button n) (buttons s n)
                                   else buttons s n),
                  outputs := (\<lambda>n. if n = name then Some (out @ [ClearOutput, Display html])
                                   else if n \<in> set (dict_keys (image_sets s))
                                   then (case buttons s n of
                                           None \<Rightarrow> outputs s n
                                         | Some b \<Rightarrow> map_option (shut_region b) (outputs s n))
                                   else outputs s n)\<rparr>)"
    (is "_ = Inr ?goal")
proof -
  let ?s0 = "s\<lparr>buttons := (buttons s)(name \<mapsto> b\<lparr>tb_value := True\<rparr>)\<rparr>"
  have "toggle_event name s = on_toggle (chg True) name ?s0"
    using assms(4,5) by (simp add: toggle_event_def set_value_def chg_def)
  also have "\<dots> = on_toggle_with on_toggle (chg True) name ?s0"
    using on_toggle_unfold by simp
  also have "\<dots> = (case show_html on_toggle name ?s0 of
                      Inl e \<Rightarrow> Inl e
                    | Inr s1 \<Rightarrow> set_description name (''Hide '' @ name) s1)"
    by (simp add: on_toggle_with_def chg_def)
  finally have t: "toggle_event name s =
      (case show_html on_toggle name ?s0 of
         Inl e \<Rightarrow> Inl e
       | Inr s1 \<Rightarrow> set_description name (''Hide '' @ name) s1)" .
  have sh: "show_html on_toggle name ?s0 =
           Inr (?s0\<lparr>buttons := (\<lambda>n. if n \<in> set (dict_keys (image_sets ?s0)) \<and> n \<noteq> name
                                   then map_option (shut_button n) (buttons ?s0 n)
                                   else buttons ?s0 n),
                  outputs := (\<lambda>n. if n = name then Some (out @ [ClearOutput, Display html])
                                   else if n \<in> set (dict_keys (image_sets ?s0))
                                   then (case buttons ?s0 n of
                                           None \<Rightarrow> outputs ?s0 n
                                         | Some b \<Rightarrow> map_option (shut_region b) (outputs ?s0 n))
                                   else outputs ?s0 n)\<rparr>)"
    (is "_ = Inr ?s2")
    using assms by (intro show_html_eq) auto
  have "set_description name (''Hide '' @ name) ?s2 =
          Inr (?s2\<lparr>buttons := (buttons ?s2)(name \<mapsto> (b\<lparr>tb_value := True\<rparr>)\<lparr>tb_description := ''Hide '' @ name\<rparr>)\<rparr>)"
    by (rule set_description_Some) simp
  also have "?s2\<lparr>buttons := (buttons ?s2)(name \<mapsto> (b\<lparr>tb_value := True\<rparr>)\<lparr>tb_description := ''Hide '' @ name\<rparr>)\<rparr> = ?goal"
    by (rule gallery.equality) (auto simp: fun_eq_iff split: option.splits)
  finally show ?thesis
    unfolding t sh by simp
qed

lemma toggle_event_close:
  assumes "buttons s name = Some b" and "tb_value b" and "outputs s name = Some out"
  shows "toggle_event name s =
           Inr (s\<lparr>buttons := (buttons s)(name \<mapsto> b\<lparr>tb_value := False, tb_description := ''Show '' @ name\<rparr>),
                  outputs := (outputs s)(name \<mapsto> out @ [ClearOutput])\<rparr>)"
  using assms set_value_False_open [OF assms]
  by (simp add: toggle_event_def)

lemma shown_clear [simp]: "shown (out @ [ClearOutput]) = []"
  by (simp add: shown_def)

lemma shown_clear_clear [simp]: "shown (out @ [ClearOutput, ClearOutput]) = []"
  by (simp add: shown_def)

lemma shown_clear_display [simp]: "shown (out @ [ClearOutput, Display h]) = [h]"
  by (simp add: shown_def)

lemma shown_Nil [simp]: "shown [] = []"
  by (simp add: shown_def)

lemma synced_refresh:
  "distinct (dict_keys (image_sets s)) \<Longrightarrow> synced (refresh s)"
  by (auto simp: synced_def refresh_eq dom_def split: if_splits)

lemma settled_refresh:
  assumes "distinct (dict_keys (image_sets s))"
  shows "settled (refresh s)"
  unfolding settled_def
proof (intro conjI)
  show "synced (refresh s)" using assms by (rule synced_refresh)
  show "\<forall>n\<in>set (dict_keys (image_sets (refresh s))).
       page_view (refresh s) n = Some (new_button n (button_style (refresh s)), []) \<or>
       (\<exists>html. dict_get n (image_sets (refresh s)) = Some html \<and>
               page_view (refresh s) n = Some (open_button n (button_style (refresh s)), [html]))"
    by (simp add: refresh_eq page_view_def)
  show "\<forall>n m. page_open (refresh s) n \<and> page_open (refresh s) m \<longrightarrow> n = m"
    by (simp add: refresh_eq page_open_def new_button_def)
qed

lemma dict_get_Some: "n \<in> set (dict_keys d) \<Longrightarrow> \<exists>html. dict_get n d = Some html"
  by (induction d) (auto simp: dict_keys_def dict_get_def)

lemma shown_shut_region [simp]: "shown (shut_region b out) = []"
  by (simp add: shut_region_def)

lemma shut_button_closed [simp]: "\<not> tb_value (shut_button n b)"
  by (simp add: shut_button_def)

lemma new_button_closed [simp]: "\<not> tb_value (new_button n style)"
  by (simp add: new_button_def)

lemma shut_button_new [simp]: "shut_button n (new_button n style) = new_button n style"
  by (simp add: shut_button_def new_button_def)

lemma shut_button_open [simp]: "shut_button n (open_button n style) = new_button n style"
  by (simp add: shut_button_def new_button_def open_button_def)

lemma settled_page:
  assumes "settled s" and "n \<in> set (dict_keys (image_sets s))"
  obtains (closed) out where "buttons s n = Some (new_button n (button_style s))"
      and "outputs s n = Some out" and "shown out = []"
    | (opened) out html where "buttons s n = Some (open_button n (button_style s))"
      and "outputs s n = Some out" and "shown out = [html]"
      and "dict_get n (image_sets s) = Some html"
  using assms unfolding settled_def page_view_def
  by (fastforce split: option.splits)

lemma settledI:
  assumes "synced s"
    and "\<And>n. n \<in> set (dict_keys (image_sets s)) \<Longrightarrow>
           page_view s n = Some (new_button n (button_style s), [])
           \<or> (\<exists>html. dict_get n (image_sets s) = Some html
                 \<and> page_view s n = Some (open_button n (button_style s), [html]))"
    and "\<And>n m. page_open s n \<Longrightarrow> page_open s m \<Longrightarrow> n = m"
  shows "settled s"
  using assms unfolding settled_def by blast

lemma settled_toggle:
  assumes "settled s" and "name \<in> set (dict_keys (image_sets s))"
  shows "\<exists>s'. toggle_event name s = Inr s' \<and> settled s' \<and> image_sets s' = image_sets s
            \<and> button_style s' = button_style s"
  using assms
proof (cases rule: settled_page)
  case (opened out html)
  let ?s' = "s\<lparr>buttons := (buttons s)(name \<mapsto> (open_button name (button_style s))\<lparr>tb_value := False, tb_description := ''Show '' @ name\<rparr>),
                  outputs := (outputs s)(name \<mapsto> out @ [ClearOutput])\<rparr>"
  have ev: "toggle_event name s = Inr ?s'"
    by (rule toggle_event_close) (simp_all add: opened open_button_def)
  have sy: "synced ?s'"
    using assms by (auto simp: settled_def synced_def)
  have vw: "page_view ?s' n = Some (new_button n (button_style ?s'), [])
           \<or> (\<exists>html. dict_get n (image_sets ?s') = Some html
                 \<and> page_view ?s' n = Some (open_button n (button_style ?s'), [html]))"
    if "n \<in> set (dict_keys (image_sets ?s'))" for n
  proof (cases "n = name")
    case True
    then show ?thesis
      by (simp add: page_view_def open_button_def new_button_def)
  next
    case False
    from that have "n \<in> set (dict_keys (image_sets s))" by simp
    with assms(1) show ?thesis
      by (cases rule: settled_page) (simp_all add: page_view_def False)
  qed
  have ex: "n = m" if "page_open ?s' n" and "page_open ?s' m" for n m
    using assms(1) that by (auto simp: settled_def page_open_def split: if_splits)
  have st: "settled ?s'"
    by (rule settledI [OF sy vw ex])
  show ?thesis
    by (intro exI [of _ ?s'] conjI ev st) simp_all
next
  case (closed out)
  from assms(2) obtain html where html: "dict_get name (image_sets s) = Some html"
    using dict_get_Some by blast
  let ?ks = "dict_keys (image_sets s)"
  let ?s' = "s\<lparr>buttons := (\<lambda>n. if n = name
                                   then Some ((new_button name (button_style s))\<lparr>tb_value := True, tb_description := ''Hide '' @ name\<rparr>)
                                   else if n \<in> set ?ks
                                   then map_option (shut_button n) (buttons s n)
                                   else buttons s n),
                  outputs := (\<lambda>n. if n = name then Some (out @ [ClearOutput, Display html])
                                   else if n \<in> set ?ks
                                   then (case buttons s n of
                                           None \<Rightarrow> outputs s n
                                         | Some b \<Rightarrow> map_option (shut_region b) (outputs s n))
                                   else outputs s n)\<rparr>"
  have sy0: "synced s" using assms(1) by (simp add: settled_def)
  have ev: "toggle_event name s = Inr ?s'"
    using sy0 closed html
    by (intro toggle_event_open) (simp_all add: synced_def new_button_def)
  have sy: "synced ?s'"
    using sy0 assms(2) by (auto simp: synced_def dom_def split: if_splits option.splits)
  have vw: "page_view ?s' n = Some (new_button n (button_style ?s'), [])
           \<or> (\<exists>html. dict_get n (image_sets ?s') = Some html
                 \<and> page_view ?s' n = Some (open_button n (button_style ?s'), [html]))"
    if "n \<in> set (dict_keys (image_sets ?s'))" for n
  proof (cases "n = name")
    case True
    then show ?thesis
      using html by (simp add: page_view_def open_button_def new_button_def)
  next
    case False
    from that have "n \<in> set ?ks" by simp
    with assms(1) show ?thesis
      by (cases rule: settled_page) (simp_all add: page_view_def False that)
  qed
  have ex: "n = m" if "page_open ?s' n" and "page_open ?s' m" for n m
  proof -
    have "k = name" if "page_open ?s' k" for k
    proof (rule ccontr)
      assume "k \<noteq> name"
      show False
      proof (cases "k \<in> set ?ks")
        case True
        from assms(1) True show False
          using \<open>page_open ?s' k\<close> \<open>k \<noteq> name\<close>
          by (cases rule: settled_page) (simp_all add: page_open_def True)
      next
        case False
        with sy0 have "buttons s k = None" by (auto simp: synced_def)
        with False \<open>k \<noteq> name\<close> \<open>page_open ?s' k\<close> show False
          by (simp add: page_open_def)
      qed
    qed
    with that show ?thesis by blast
  qed
  have st: "settled ?s'"
    by (rule settledI [OF sy vw ex])
  show ?thesis
    by (intro exI [of _ ?s'] conjI ev st) simp_all
qed

lemma settled_run_toggles:
  assumes "settled s" and "set ns \<subseteq> set (dict_keys (image_sets s))"
  shows "\<exists>s'. run_toggles ns s = Inr s' \<and> settled s' \<and> image_sets s' = image_sets s
            \<and> button_style s' = button_style s"
  using assms
proof (induction ns arbitrary: s)
  case Nil
  then show ?case by (simp add: run_toggles_def)
next
  case (Cons n ns)
  then have "n \<in> set (dict_keys (image_sets s))" by simp
  with Cons.prems(1) obtain s1 where s1: "toggle_event n s = Inr s1" "settled s1"
      "image_sets s1 = image_sets s" "button_style s1 = button_style s"
    using settled_toggle by blast
  with Cons.prems(2) have "set ns \<subseteq> set (dict_keys (image_sets s1))" by simp
  with s1(2) obtain s' where "run_toggles ns s1 = Inr s'" "settled s'"
      "image_sets s' = image_sets s1" "button_style s' = button_style s1"
    using Cons.IH by blast
  with s1 show ?case by (simp add: run_toggles_def)
qed

subsection \<open>Exclusivity\<close>

text \<open>
  C1. Exclusivity invariant: after a refresh, and with no change of the page set in
  between, every sequence of toggle events runs without error and after each event (that
  is, after every prefix of the sequence) at most one page's toggle has the value true.
\<close>

theorem exclusivity:
  assumes "distinct (dict_keys (image_sets s))"
    and "set ns \<subseteq> set (dict_keys (image_sets s))"
  shows "\<forall>k. \<exists>s'. run_toggles (take k ns) (refresh s) = Inr s'
            \<and> (\<forall>n m. page_open s' n \<and> page_open s' m \<longrightarrow> n = m)"
proof
  fix k
  have "settled (refresh s)" using assms(1) by (rule settled_refresh)
  moreover have "set (take k ns) \<subseteq> set (dict_keys (image_sets (refresh s)))"
    using assms(2) set_take_subset [of k ns] by (auto simp: image_sets_refresh)
  ultimately obtain s' where "run_toggles (take k ns) (refresh s) = Inr s'" "settled s'"
    using settled_run_toggles by blast
  then show "\<exists>s'. run_toggles (take k ns) (refresh s) = Inr s'
            \<and> (\<forall>n m. page_open s' n \<and> page_open s' m \<longrightarrow> n = m)"
    by (auto simp: settled_def)
qed

theorem exclusivity_witness:
  "distinct (dict_keys (image_sets demo))
   \<and> set [''A'', ''B'', ''B'', ''A''] \<subseteq> set (dict_keys (image_sets demo))
   \<and> (\<forall>k. \<exists>s'. run_toggles (take k [''A'', ''B'', ''B'', ''A'']) (refresh demo) = Inr s'
            \<and> (\<forall>n m. page_open s' n \<and> page_open s' m \<longrightarrow> n = m))"
proof -
  have h1: "distinct (dict_keys (image_sets demo))"
    by (simp add: image_sets_demo dict_keys_def)
  have h2: "set [''A'', ''B'', ''B'', ''A''] \<subseteq> set (dict_keys (image_sets demo))"
    by (simp add: image_sets_demo dict_keys_def)
  show ?thesis
    using h1 h2 exclusivity [OF h1 h2] by blast
qed

subsection \<open>Closing a page\<close>

lemma demo_eq:
  "demo = \<lparr>image_sets = [(''A'', ''<img a>''), (''B'', ''<img b>'')],
           include_close_all = True, button_style = '''', layout = None,
           buttons = [''A'' \<mapsto> new_button ''A'' '''', ''B'' \<mapsto> new_button ''B'' ''''],
           outputs = [''A'' \<mapsto> [], ''B'' \<mapsto> []],
           children = [VBox [CloseAllButton, VBox [row ''A'', row ''B'']]]\<rparr>"
  by (simp add: demo_def init_def refresh_def refresh_row_def Let_def dict_keys_def row_def)

lemma synced_demo: "synced demo"
  unfolding demo_def init_def by (rule synced_refresh) (simp add: dict_keys_def)

lemma demo_A_reached: "toggle_event ''A'' demo = Inr demo_A"
proof -
  have "toggle_event ''A'' demo = Inr (demo\<lparr>buttons := (\<lambda>n. if n = ''A''
                                   then Some ((new_button ''A'' '''')\<lparr>tb_value := True, tb_description := ''Hide '' @ ''A''\<rparr>)
                                   else if n \<in> set (dict_keys (image_sets demo))
                                   then map_option (shut_button n) (buttons demo n)
                                   else buttons demo n),
                  outputs := (\<lambda>n. if n = ''A'' then Some ([] @ [ClearOutput, Display ''<img a>''])
                                   else if n \<in> set (dict_keys (image_sets demo))
                                   then (case buttons demo n of
                                           None \<Rightarrow> outputs demo n
                                         | Some b \<Rightarrow> map_option (shut_region b) (outputs demo n))
                                   else outputs demo n)\<rparr>)"
    using synced_demo
    by (intro toggle_event_open)
      (simp_all add: synced_def, simp_all add: demo_eq dict_get_def)
  also have "\<dots> = Inr demo_A"
    unfolding demo_A_def
    by (simp, rule gallery.equality)
      (auto simp: demo_eq fun_eq_iff dict_keys_def new_button_def open_button_def
        shut_region_def shut_button_def)
  finally show ?thesis .
qed

text \<open>
  C7. When the toggle of an open page is switched to closed, the handler clears that
  page's region and sets its label back to \<open>Show name\<close>; the toggle, label and region of
  every other page, the page set and the tree are left as they were.
\<close>

theorem toggle_closes_only_itself:
  assumes "buttons s name = Some b" and "tb_value b" and "outputs s name = Some out"
  shows "\<exists>s'. toggle_event name s = Inr s'
           \<and> buttons s' name = Some (b\<lparr>tb_value := False, tb_description := ''Show '' @ name\<rparr>)
           \<and> outputs s' name = Some (out @ [ClearOutput])
           \<and> shown (out @ [ClearOutput]) = []
           \<and> (\<forall>n. n \<noteq> name \<longrightarrow> buttons s' n = buttons s n \<and> outputs s' n = outputs s n)
           \<and> image_sets s' = image_sets s \<and> children s' = children s"
  using toggle_event_close [OF assms] by simp

theorem toggle_closes_only_itself_witness:
  "buttons demo_A ''A'' = Some (open_button ''A'' '''')
   \<and> tb_value (open_button ''A'' '''')
   \<and> outputs demo_A ''A'' = Some [ClearOutput, Display ''<img a>'']
   \<and> (\<exists>s'. toggle_event ''A'' demo_A = Inr s'
           \<and> buttons s' ''A'' = Some ((open_button ''A'' '''')\<lparr>tb_value := False, tb_description := ''Show '' @ ''A''\<rparr>)
           \<and> outputs s' ''A'' = Some ([ClearOutput, Display ''<img a>''] @ [ClearOutput])
           \<and> shown ([ClearOutput, Display ''<img a>''] @ [ClearOutput]) = []
           \<and> (\<forall>n. n \<noteq> ''A'' \<longrightarrow> buttons s' n = buttons demo_A n \<and> outputs s' n = outputs demo_A n)
           \<and> image_sets s' = image_sets demo_A \<and> children s' = children demo_A)"
proof -
  have h1: "buttons demo_A ''A'' = Some (open_button ''A'' '''')"
    by (simp add: demo_A_def)
  have h2: "tb_value (open_button ''A'' '''')"
    by (simp add: open_button_def)
  have h3: "outputs demo_A ''A'' = Some [ClearOutput, Display ''<img a>'']"
    by (simp add: demo_A_def)
  show ?thesis
    using h1 h2 h3 toggle_closes_only_itself [OF h1 h2 h3] by blast
qed

subsection \<open>Opening a page\<close>

lemma image_sets_demo_A: "image_sets demo_A = [(''A'', ''<img a>''), (''B'', ''<img b>'')]"
  by (simp add: demo_A_def image_sets_demo)

lemma demo_A_removed_eq:
  "demo_A_removed = demo_A\<lparr>image_sets := [(''B'', ''<img b>'')]\<rparr>"
  by (simp add: demo_A_removed_def remove_set_def image_sets_demo_A)

text \<open>
  C2, as the code has it. Take a closed page that is in the page set, every name of the
  page set having its toggle and its region. When its toggle is switched to open, the
  handler, within that event, renders the page's HTML into its region and sets its label
  to \<open>Hide name\<close>; it clears the region of every other page of the page set, open or
  closed; such a page that was open has its toggle forced to closed, which re-enters the
  handler and so clears the region once more and restores the label \<open>Show n\<close>; the toggle
  and the label of a page that was already closed are not assigned. Widgets of a name that
  is no longer in the page set are left as they are.
\<close>

theorem toggle_opens_and_clears_others:
  assumes "distinct (dict_keys (image_sets s))"
    and "set (dict_keys (image_sets s)) \<subseteq> dom (buttons s)"
    and "set (dict_keys (image_sets s)) \<subseteq> dom (outputs s)"
    and "name \<in> set (dict_keys (image_sets s))"
    and "buttons s name = Some b" and "\<not> tb_value b"
    and "outputs s name = Some out"
  shows "\<exists>s' html. toggle_event name s = Inr s'
           \<and> dict_get name (image_sets s) = Some html
           \<and> buttons s' name = Some (b\<lparr>tb_value := True, tb_description := ''Hide '' @ name\<rparr>)
           \<and> outputs s' name = Some (out @ [ClearOutput, Display html])
           \<and> shown (out @ [ClearOutput, Display html]) = [html]
           \<and> (\<forall>n b' out'. n \<noteq> name \<and> n \<in> set (dict_keys (image_sets s))
                   \<and> buttons s n = Some b' \<and> outputs s n = Some out' \<longrightarrow>
                 (if tb_value b'
                  then buttons s' n = Some (b'\<lparr>tb_value := False, tb_description := ''Show '' @ n\<rparr>)
                       \<and> outputs s' n = Some (out' @ [ClearOutput, ClearOutput])
                  else buttons s' n = Some b'
                       \<and> outputs s' n = Some (out' @ [ClearOutput])))
           \<and> (\<forall>n. n \<noteq> name \<and> n \<notin> set (dict_keys (image_sets s)) \<longrightarrow>
                 buttons s' n = buttons s n \<and> outputs s' n = outputs s n)
           \<and> image_sets s' = image_sets s \<and> children s' = children s"
proof -
  from assms(4) obtain html where html: "dict_get name (image_sets s) = Some html"
    using dict_get_Some by blast
  let ?ks = "dict_keys (image_sets s)"
  let ?s' = "s\<lparr>buttons := (\<lambda>n. if n = name
                                   then Some (b\<lparr>tb_value := True, tb_description := ''Hide '' @ name\<rparr>)
                                   else if n \<in> set ?ks
                                   then map_option (shut_button n) (buttons s n)
                                   else buttons s n),
                  outputs := (\<lambda>n. if n = name then Some (out @ [ClearOutput, Display html])
                                   else if n \<in> set ?ks
                                   then (case buttons s n of
                                           None \<Rightarrow> outputs s n
                                         | Some b \<Rightarrow> map_option (shut_region b) (outputs s n))
                                   else outputs s n)\<rparr>"
  have ev: "toggle_event name s = Inr ?s'"
    using assms(1,2,3,5,6,7) html by (rule toggle_event_open)
  have others: "\<forall>n b' out'. n \<noteq> name \<and> n \<in> set ?ks
                   \<and> buttons s n = Some b' \<and> outputs s n = Some out' \<longrightarrow>
                 (if tb_value b'
                  then buttons ?s' n = Some (b'\<lparr>tb_value := False, tb_description := ''Show '' @ n\<rparr>)
                       \<and> outputs ?s' n = Some (out' @ [ClearOutput, ClearOutput])
                  else buttons ?s' n = Some b'
                       \<and> outputs ?s' n = Some (out' @ [ClearOutput]))"
    by (simp add: shut_button_def shut_region_def)
  have stale: "\<forall>n. n \<noteq> name \<and> n \<notin> set ?ks \<longrightarrow>
                 buttons ?s' n = buttons s n \<and> outputs ?s' n = outputs s n"
    by simp
  show ?thesis
    by (intro exI [of _ ?s'] exI [of _ html] conjI ev html others stale) simp_all
qed

theorem toggle_opens_and_clears_others_witness:
  "(distinct (dict_keys (image_sets demo_A))
    \<and> set (dict_keys (image_sets demo_A)) \<subseteq> dom (buttons demo_A)
    \<and> set (dict_keys (image_sets demo_A)) \<subseteq> dom (outputs demo_A)
    \<and> ''B'' \<in> set (dict_keys (image_sets demo_A))
    \<and> buttons demo_A ''B'' = Some (new_button ''B'' '''')
    \<and> \<not> tb_value (new_button ''B'' '''')
    \<and> outputs demo_A ''B'' = Some [ClearOutput]
    \<and> (\<exists>s' html. toggle_event ''B'' demo_A = Inr s'
           \<and> dict_get ''B'' (image_sets demo_A) = Some html
           \<and> buttons s' ''B'' = Some ((new_button ''B'' '''')\<lparr>tb_value := True, tb_description := ''Hide '' @ ''B''\<rparr>)
           \<and> outputs s' ''B'' = Some ([ClearOutput] @ [ClearOutput, Display html])
           \<and> shown ([ClearOutput] @ [ClearOutput, Display html]) = [html]
           \<and> (\<forall>n b' out'. n \<noteq> ''B'' \<and> n \<in> set (dict_keys (image_sets demo_A))
                   \<and> buttons demo_A n = Some b' \<and> outputs demo_A n = Some out' \<longrightarrow>
                 (if tb_value b'
                  then buttons s' n = Some (b'\<lparr>tb_value := False, tb_description := ''Show '' @ n\<rparr>)
                       \<and> outputs s' n = Some (out' @ [ClearOutput, ClearOutput])
                  else buttons s' n = Some b'
                       \<and> outputs s' n = Some (out' @ [ClearOutput])))
           \<and> (\<forall>n. n \<noteq> ''B'' \<and> n \<notin> set (dict_keys (image_sets demo_A)) \<longrightarrow>
                 buttons s' n = buttons demo_A n \<and> outputs s' n = outputs demo_A n)
           \<and> image_sets s' = image_sets demo_A \<and> children s' = children demo_A))
   \<and> (distinct (dict_keys (image_sets demo_A_removed))
    \<and> set (dict_keys (image_sets demo_A_removed)) \<subseteq> dom (buttons demo_A_removed)
    \<and> set (dict_keys (image_sets demo_A_removed)) \<subseteq> dom (outputs demo_A_removed)
    \<and> ''B'' \<in> set (dict_keys (image_sets demo_A_removed))
    \<and> ''A'' \<notin> set (dict_keys (image_sets demo_A_removed))
    \<and> buttons demo_A_removed ''B'' = Some (new_button ''B'' '''')
    \<and> outputs demo_A_removed ''B'' = Some [ClearOutput]
    \<and> (\<exists>s' html. toggle_event ''B'' demo_A_removed = Inr s'
           \<and> dict_get ''B'' (image_sets demo_A_removed) = Some html
           \<and> buttons s' ''B'' = Some ((new_button ''B'' '''')\<lparr>tb_value := True, tb_description := ''Hide '' @ ''B''\<rparr>)
           \<and> outputs s' ''B'' = Some ([ClearOutput] @ [ClearOutput, Display html])
           \<and> shown ([ClearOutput] @ [ClearOutput, Display html]) = [html]
           \<and> (\<forall>n b' out'. n \<noteq> ''B'' \<and> n \<in> set (dict_keys (image_sets demo_A_removed))
                   \<and> buttons demo_A_removed n = Some b' \<and> outputs demo_A_removed n = Some out' \<longrightarrow>
                 (if tb_value b'
                  then buttons s' n = Some (b'\<lparr>tb_value := False, tb_description := ''Show '' @ n\<rparr>)
                       \<and> outputs s' n = Some (out' @ [ClearOutput, ClearOutput])
                  else buttons s' n = Some b'
                       \<and> outputs s' n = Some (out' @ [ClearOutput])))
           \<and> (\<forall>n. n \<noteq> ''B'' \<and> n \<notin> set (dict_keys (image_sets demo_A_removed)) \<longrightarrow>
                 buttons s' n = buttons demo_A_removed n \<and> outputs s' n = outputs demo_A_removed n)
           \<and> image_sets s' = image_sets demo_A_removed \<and> children s' = children demo_A_removed))"
proof -
  have a1: "distinct (dict_keys (image_sets demo_A))"
    by (simp add: image_sets_demo_A dict_keys_def)
  have a2: "set (dict_keys (image_sets demo_A)) \<subseteq> dom (buttons demo_A)"
    by (simp add: image_sets_demo_A dict_keys_def) (simp add: demo_A_def demo_eq)
  have a3: "set (dict_keys (image_sets demo_A)) \<subseteq> dom (outputs demo_A)"
    by (simp add: image_sets_demo_A dict_keys_def) (simp add: demo_A_def demo_eq)
  have a4: "''B'' \<in> set (dict_keys (image_sets demo_A))"
    by (simp add: image_sets_demo_A dict_keys_def)
  have a5: "buttons demo_A ''B'' = Some (new_button ''B'' '''')"
    by (simp add: demo_A_def demo_eq)
  have a6: "\<not> tb_value (new_button ''B'' '''')"
    by (simp add: new_button_def)
  have a7: "outputs demo_A ''B'' = Some [ClearOutput]"
    by (simp add: demo_A_def)
  have r1: "distinct (dict_keys (image_sets demo_A_removed))"
    by (simp add: demo_A_removed_eq dict_keys_def)
  have r2: "set (dict_keys (image_sets demo_A_removed)) \<subseteq> dom (buttons demo_A_removed)"
    by (simp add: demo_A_removed_eq dict_keys_def) (simp add: demo_A_def demo_eq)
  have r3: "set (dict_keys (image_sets demo_A_removed)) \<subseteq> dom (outputs demo_A_removed)"
    by (simp add: demo_A_removed_eq dict_keys_def) (simp add: demo_A_def demo_eq)
  have r4: "''B'' \<in> set (dict_keys (image_sets demo_A_removed))"
    by (simp add: demo_A_removed_eq dict_keys_def)
  have rA: "''A'' \<notin> set (dict_keys (image_sets demo_A_removed))"
    by (simp add: demo_A_removed_eq dict_keys_def)
  have r5: "buttons demo_A_removed ''B'' = Some (new_button ''B'' '''')"
    by (simp add: demo_A_removed_eq a5)
  have r7: "outputs demo_A_removed ''B'' = Some [ClearOutput]"
    by (simp add: demo_A_removed_eq a7)
  show ?thesis
    by (intro conjI a1 a2 a3 a4 a5 a6 a7 r1 r2 r3 r4 rA r5 r7
        toggle_opens_and_clears_others [OF a1 a2 a3 a4 a5 a6 a7]
        toggle_opens_and_clears_others [OF r1 r2 r3 r4 r5 a6 r7])
qed

text \<open>
  The last part at work: \<open>A\<close> was open when it was removed from the page set, and a click
  on \<open>B\<close> then leaves both toggles true.
\<close>

lemma stale_page_stays_open:
  "case toggle_event ''B'' demo_A_removed of
     Inl e \<Rightarrow> False
   | Inr s' \<Rightarrow> page_open s' ''A'' \<and> page_open s' ''B''"
  by (simp add: demo_A_removed_eq demo_A_def demo_eq toggle_event_def
      set_value_def on_toggle_def on_toggle_with_def show_html_def render_def
      clear_output_def close_other_def set_description_def chg_def dict_keys_def dict_get_def
      new_button_def open_button_def page_open_def)

text \<open>
  C2, as the specification words it, says that the region of a page already closed is not
  cleared again. In the example gallery page \<open>B\<close> is closed and its region has received no
  call; the click on \<open>A\<close> sends it \<^verbatim>\<open>clear_output()\<close>.
\<close>

theorem reclear_counterexample:
  "\<not> page_open demo ''B''
   \<and> outputs demo ''B'' = Some []
   \<and> toggle_event ''A'' demo = Inr demo_A
   \<and> outputs demo_A ''B'' = Some [ClearOutput]
   \<and> outputs demo_A ''B'' \<noteq> outputs demo ''B''"
  by (simp add: demo_A_reached) (simp add: demo_A_def demo_eq page_open_def new_button_def)

subsection \<open>Close all\<close>

lemma close_one_closed_page:
  assumes "buttons s n = Some b" and "outputs s n = Some out"
  shows "close_one n s = Inr (closed_page n s)"
proof (cases "tb_value b")
  case True
  have "set_value on_toggle n False s =
           Inr (s\<lparr>buttons := (buttons s)(n \<mapsto> b\<lparr>tb_value := False, tb_description := ''Show '' @ n\<rparr>),
                  outputs := (outputs s)(n \<mapsto> out @ [ClearOutput])\<rparr>)"
    using assms(1) True assms(2) by (rule set_value_False_open)
  then show ?thesis
    using assms True by (simp add: close_one_def closed_page_def set_description_def)
next
  case False
  then have same: "b\<lparr>tb_value := False\<rparr> = b"
    by simp
  show ?thesis
    using assms False
    by (simp add: close_one_def closed_page_def hide_html_def clear_output_def
        set_description_def) (rule gallery.equality, simp_all add: same)
qed

lemma dom_buttons_closed_page: "dom (buttons (closed_page n s)) = dom (buttons s)"
  by (auto simp: closed_page_def split: option.splits if_splits)

lemma dom_outputs_closed_page: "dom (outputs (closed_page n s)) = dom (outputs s)"
  by (auto simp: closed_page_def dom_def split: option.splits if_splits)

lemma for_each_close_one:
  assumes "set ks \<subseteq> dom (buttons s)" and "set ks \<subseteq> dom (outputs s)"
  shows "for_each close_one ks s = Inr (fold closed_page ks s)"
  using assms
proof (induction ks arbitrary: s)
  case Nil
  show ?case by simp
next
  case (Cons k ks)
  from Cons.prems obtain b out where "buttons s k = Some b" "outputs s k = Some out"
    by auto
  then have step: "close_one k s = Inr (closed_page k s)"
    by (rule close_one_closed_page)
  have "for_each close_one ks (closed_page k s) = Inr (fold closed_page ks (closed_page k s))"
    using Cons.prems
    by (intro Cons.IH) (simp_all add: dom_buttons_closed_page dom_outputs_closed_page)
  with step show ?case by simp
qed

lemma fold_closed_page_eq:
  assumes "distinct ks"
  shows "fold closed_page ks s =
           s\<lparr>buttons := (\<lambda>n. if n \<in> set ks
                              then map_option (\<lambda>b. b\<lparr>tb_value := False, tb_description := ''Show '' @ n\<rparr>) (buttons s n)
                              else buttons s n),
             outputs := (\<lambda>n. if n \<in> set ks
                              then (case buttons s n of
                                      None \<Rightarrow> outputs s n
                                    | Some b \<Rightarrow> map_option (\<lambda>out. out @ [ClearOutput]) (outputs s n))
                              else outputs s n)\<rparr>"
  using assms
proof (induction ks arbitrary: s)
  case Nil
  show ?case by simp
next
  case (Cons k ks)
  then have "k \<notin> set ks" and "distinct ks" by simp_all
  then show ?case
    by (simp add: Cons.IH) (auto simp: closed_page_def fun_eq_iff split: option.splits)
qed

lemma close_all_eq:
  assumes "synced s"
  shows "close_all s =
           Inr (s\<lparr>buttons := (\<lambda>n. if n \<in> set (dict_keys (image_sets s))
                              then map_option (\<lambda>b. b\<lparr>tb_value := False, tb_description := ''Show '' @ n\<rparr>) (buttons s n)
                              else buttons s n),
             outputs := (\<lambda>n. if n \<in> set (dict_keys (image_sets s))
                              then (case buttons s n of
                                      None \<Rightarrow> outputs s n
                                    | Some b \<Rightarrow> map_option (\<lambda>out. out @ [ClearOutput]) (outputs s n))
                              else outputs s n)\<rparr>)"
proof -
  have "close_all s = Inr (fold closed_page (dict_keys (image_sets s)) s)"
    unfolding close_all_def using assms by (intro for_each_close_one) (simp_all add: synced_def)
  also have "fold closed_page (dict_keys (image_sets s)) s = s\<lparr>buttons := (\<lambda>n. if n \<in> set (dict_keys (image_sets s))
                              then map_option (\<lambda>b. b\<lparr>tb_value := False, tb_description := ''Show '' @ n\<rparr>) (buttons s n)
                              else buttons s n),
             outputs := (\<lambda>n. if n \<in> set (dict_keys (image_sets s))
                              then (case buttons s n of
                                      None \<Rightarrow> outputs s n
                                    | Some b \<Rightarrow> map_option (\<lambda>out. out @ [ClearOutput]) (outputs s n))
                              else outputs s n)\<rparr>"
    using assms by (intro fold_closed_page_eq) (simp add: synced_def)
  finally show ?thesis .
qed

lemma page_view_outside:
  assumes "synced s" and "n \<notin> set (dict_keys (image_sets s))"
  shows "page_view s n = None" and "\<not> page_open s n"
proof -
  from assms have "buttons s n = None" by (auto simp: synced_def)
  then show "page_view s n = None" and "\<not> page_open s n"
    by (simp_all add: page_view_def page_open_def)
qed

lemma settled_close_all:
  assumes "settled s"
  shows "\<exists>s'. close_all s = Inr s' \<and> settled s' \<and> image_sets s' = image_sets s
            \<and> button_style s' = button_style s
            \<and> (\<forall>n \<in> set (dict_keys (image_sets s)).
                  page_view s' n = Some (new_button n (button_style s), []))
            \<and> (\<forall>n. \<not> page_open s' n)"
proof -
  let ?ks = "dict_keys (image_sets s)"
  let ?s' = "s\<lparr>buttons := (\<lambda>n. if n \<in> set ?ks
                              then map_option (\<lambda>b. b\<lparr>tb_value := False, tb_description := ''Show '' @ n\<rparr>) (buttons s n)
                              else buttons s n),
             outputs := (\<lambda>n. if n \<in> set ?ks
                              then (case buttons s n of
                                      None \<Rightarrow> outputs s n
                                    | Some b \<Rightarrow> map_option (\<lambda>out. out @ [ClearOutput]) (outputs s n))
                              else outputs s n)\<rparr>"
  have sy0: "synced s" using assms by (simp add: settled_def)
  have ev: "close_all s = Inr ?s'"
    using sy0 by (rule close_all_eq)
  have sy: "synced ?s'"
    using sy0 by (auto simp: synced_def dom_def split: if_splits option.splits)
  have vw: "page_view ?s' n = Some (new_button n (button_style s), [])"
    if "n \<in> set ?ks" for n
    using assms that
    by (cases rule: settled_page)
      (simp_all add: page_view_def that new_button_def open_button_def)
  have cl: "\<not> page_open ?s' n" for n
  proof (cases "n \<in> set ?ks")
    case True
    with assms show ?thesis
      by (cases rule: settled_page) (simp_all add: page_open_def True)
  next
    case False
    with sy0 have "buttons s n = None" by (auto simp: synced_def)
    with False show ?thesis by (simp add: page_open_def)
  qed
  have st: "settled ?s'"
  proof (rule settledI [OF sy])
    fix n assume "n \<in> set (dict_keys (image_sets ?s'))"
    then have "n \<in> set ?ks" by simp
    then have "page_view ?s' n = Some (new_button n (button_style s), [])" by (rule vw)
    then show "page_view ?s' n = Some (new_button n (button_style ?s'), [])
           \<or> (\<exists>html. dict_get n (image_sets ?s') = Some html
                 \<and> page_view ?s' n = Some (open_button n (button_style ?s'), [html]))"
      by simp
  next
    fix n m assume "page_open ?s' n"
    with cl show "n = m" by blast
  qed
  show ?thesis
    using vw cl by (intro exI [of _ ?s'] conjI ev st ballI allI) simp_all
qed

text \<open>
  C5. Close-all: from any state reached by toggle events after a refresh, the close-all
  handler succeeds and leaves every page closed: toggle false, label \<open>Show name\<close>, region
  empty. A page that was already closed looks as it did before, and a second close-all
  changes nothing that the user sees.
\<close>

theorem close_all_closes:
  assumes "distinct (dict_keys (image_sets s))"
    and "set ns \<subseteq> set (dict_keys (image_sets s))"
  shows "\<exists>s1 s2 s3. run_toggles ns (refresh s) = Inr s1 \<and> close_all s1 = Inr s2
           \<and> (\<forall>n \<in> set (dict_keys (image_sets s)).
                 page_view s2 n = Some (new_button n (button_style s), []))
           \<and> (\<forall>n. \<not> page_open s2 n)
           \<and> (\<forall>n. \<not> page_open s1 n \<longrightarrow> page_view s2 n = page_view s1 n)
           \<and> close_all s2 = Inr s3 \<and> (\<forall>n. page_view s3 n = page_view s2 n)"
proof -
  let ?ks = "dict_keys (image_sets s)"
  have "settled (refresh s)" using assms(1) by (rule settled_refresh)
  moreover have "set ns \<subseteq> set (dict_keys (image_sets (refresh s)))"
    using assms(2) by (simp add: image_sets_refresh)
  ultimately obtain s1 where s1: "run_toggles ns (refresh s) = Inr s1" "settled s1"
      "image_sets s1 = image_sets (refresh s)" "button_style s1 = button_style (refresh s)"
    using settled_run_toggles by blast
  then have k1: "dict_keys (image_sets s1) = ?ks" and b1: "button_style s1 = button_style s"
    by (simp_all add: refresh_eq)
  from s1(2) obtain s2 where s2: "close_all s1 = Inr s2" "settled s2"
      "image_sets s2 = image_sets s1" "button_style s2 = button_style s1"
      "\<forall>n \<in> set (dict_keys (image_sets s1)). page_view s2 n = Some (new_button n (button_style s1), [])"
      "\<forall>n. \<not> page_open s2 n"
    using settled_close_all by blast
  from s2(2) obtain s3 where s3: "close_all s2 = Inr s3" "settled s3"
      "image_sets s3 = image_sets s2"
      "\<forall>n \<in> set (dict_keys (image_sets s2)). page_view s3 n = Some (new_button n (button_style s2), [])"
    using settled_close_all by blast
  have v2: "page_view s2 n = Some (new_button n (button_style s), [])" if "n \<in> set ?ks" for n
    using s2(5) that k1 b1 by simp
  have v3: "page_view s3 n = Some (new_button n (button_style s), [])" if "n \<in> set ?ks" for n
    using s3(4) that k1 b1 s2(3,4) by simp
  have sy1: "synced s1" and sy2: "synced s2" and sy3: "synced s3"
    using s1(2) s2(2) s3(2) by (simp_all add: settled_def)
  have same32: "page_view s3 n = page_view s2 n" for n
  proof (cases "n \<in> set ?ks")
    case True
    then show ?thesis by (simp add: v2 v3)
  next
    case False
    then have "n \<notin> set (dict_keys (image_sets s2))" "n \<notin> set (dict_keys (image_sets s3))"
      using k1 s2(3) s3(3) by simp_all
    then show ?thesis
      using page_view_outside(1) [OF sy2] page_view_outside(1) [OF sy3] by simp
  qed
  have same21: "page_view s2 n = page_view s1 n" if "\<not> page_open s1 n" for n
  proof (cases "n \<in> set ?ks")
    case True
    then have "n \<in> set (dict_keys (image_sets s1))" using k1 by simp
    with s1(2) show ?thesis
    proof (cases rule: settled_page)
      case (closed out)
      then have "page_view s1 n = Some (new_button n (button_style s), [])"
        by (simp add: page_view_def b1)
      with v2 [OF True] show ?thesis by simp
    next
      case (opened out html)
      with that show ?thesis by (simp add: page_open_def open_button_def)
    qed
  next
    case False
    then have "n \<notin> set (dict_keys (image_sets s1))" "n \<notin> set (dict_keys (image_sets s2))"
      using k1 s2(3) by simp_all
    then show ?thesis
      using page_view_outside(1) [OF sy1] page_view_outside(1) [OF sy2] by simp
  qed
  show ?thesis
    using s1(1) s2(1) s2(6) s3(1) v2 same21 same32 by blast
qed

theorem close_all_closes_witness:
  "distinct (dict_keys (image_sets demo))
   \<and> set [''A'', ''B''] \<subseteq> set (dict_keys (image_sets demo))
   \<and> (\<exists>s1 s2 s3. run_toggles [''A'', ''B''] (refresh demo) = Inr s1 \<and> close_all s1 = Inr s2
           \<and> (\<forall>n \<in> set (dict_keys (image_sets demo)).
                 page_view s2 n = Some (new_button n (button_style demo), []))
           \<and> (\<forall>n. \<not> page_open s2 n)
           \<and> (\<forall>n. \<not> page_open s1 n \<longrightarrow> page_view s2 n = page_view s1 n)
           \<and> close_all s2 = Inr s3 \<and> (\<forall>n. page_view s3 n = page_view s2 n))"
proof -
  have h1: "distinct (dict_keys (image_sets demo))"
    by (simp add: image_sets_demo dict_keys_def)
  have h2: "set [''A'', ''B''] \<subseteq> set (dict_keys (image_sets demo))"
    by (simp add: image_sets_demo dict_keys_def)
  show ?thesis
    using h1 h2 close_all_closes [OF h1 h2] by blast
qed

subsection \<open>Mutating the page set\<close>

text \<open>
  C4. Rename collision: from the page set \<open>{A: x, B: y}\<close>, \<^verbatim>\<open>rename_set("A", "B")\<close>
  leaves the single entry \<open>B: x\<close>; the content of \<open>A\<close> survives under the name \<open>B\<close> and
  the former content of \<open>B\<close> is lost.
\<close>

theorem rename_collision:
  "rename_set ''A'' ''B'' (s\<lparr>image_sets := [(''A'', ''x''), (''B'', ''y'')]\<rparr>)
     = Inr (s\<lparr>image_sets := [(''B'', ''x'')]\<rparr>)"
  by (simp add: rename_set_def dict_keys_def dict_get_def)

text \<open>
  C9. Overwrite idempotence: \<^verbatim>\<open>replace_set(name, html)\<close> called twice in succession
  leaves the gallery that one call leaves, for every page set, name and html string.
\<close>

theorem replace_set_idempotent:
  "replace_set name html (replace_set name html s) = replace_set name html s"
  by (simp add: replace_set_def dict_set_idem)

text \<open>
  C8. No-op safety: \<^verbatim>\<open>remove_set(name)\<close> and \<^verbatim>\<open>rename_set(name, new)\<close> with a name
  that is not in the page set return the gallery unchanged (the page set and all of
  the UI state), and raise nothing.
\<close>

theorem absent_name_noop:
  assumes "name \<notin> set (dict_keys (image_sets s))"
  shows "remove_set name s = s \<and> rename_set name new s = Inr s"
  using assms by (simp add: remove_set_def rename_set_def dict_del_absent)

theorem absent_name_noop_witness:
  "''C'' \<notin> set (dict_keys (image_sets demo))
   \<and> remove_set ''C'' demo = demo \<and> rename_set ''C'' ''D'' demo = Inr demo"
proof -
  have h: "''C'' \<notin> set (dict_keys (image_sets demo))"
    by (simp add: image_sets_demo dict_keys_def)
  show ?thesis
    using h absent_name_noop [OF h, of "''D''"] by simp
qed

lemma dict_keys_del: "dict_keys (dict_del k d) = remove1 k (dict_keys d)"
  by (induction d) (auto simp: dict_keys_def)

lemma dict_set_fresh: "k \<notin> set (dict_keys d) \<Longrightarrow> dict_set k v d = d @ [(k, v)]"
  by (induction d) (auto simp: dict_keys_def)

lemma dict_keys_set_present:
  "k \<in> set (dict_keys d) \<Longrightarrow> dict_keys (dict_set k v d) = dict_keys d"
  by (induction d) (auto simp: dict_keys_def)

lemma dict_get_set: "dict_get k (dict_set k v d) = Some v"
  by (induction d) (auto simp: dict_get_def)

text \<open>
  C10. \<^verbatim>\<open>rename_set\<close> does not keep a page's position. When \<open>old\<close> is present and \<open>new\<close> is
  not the name of another page (\<open>new = old\<close> included), the entry is popped and appended, so
  after the next refresh the page is displayed last. When \<open>new\<close> names another page, the
  content of \<open>old\<close> is stored at that page's position and \<open>old\<close> is removed.
\<close>

theorem rename_moves_to_end:
  assumes "distinct (dict_keys (image_sets s))"
    and "old \<in> set (dict_keys (image_sets s))"
  shows "\<exists>s' html. rename_set old new s = Inr s'
           \<and> dict_get old (image_sets s) = Some html
           \<and> dict_get new (image_sets s') = Some html
           \<and> (if new \<in> set (dict_keys (image_sets s)) \<and> new \<noteq> old
               then dict_keys (image_sets s') = remove1 old (dict_keys (image_sets s))
               else image_sets s' = dict_del old (image_sets s) @ [(new, html)]
                    \<and> dict_keys (image_sets s') = remove1 old (dict_keys (image_sets s)) @ [new]
                    \<and> last (page_order (refresh s')) = new)
           \<and> page_order (refresh s') = dict_keys (image_sets s')"
proof -
  let ?d = "image_sets s"
  from assms(2) obtain html where html: "dict_get old ?d = Some html"
    using dict_get_Some by blast
  let ?s' = "s\<lparr>image_sets := dict_set new html (dict_del old ?d)\<rparr>"
  have ev: "rename_set old new s = Inr ?s'"
    using assms(2) html by (simp add: rename_set_def)
  have got: "dict_get new (image_sets ?s') = Some html"
    by (simp add: dict_get_set)
  have ord: "page_order (refresh ?s') = dict_keys (image_sets ?s')"
    by (rule page_order_refresh)
  have pos: "if new \<in> set (dict_keys ?d) \<and> new \<noteq> old
               then dict_keys (image_sets ?s') = remove1 old (dict_keys ?d)
               else image_sets ?s' = dict_del old ?d @ [(new, html)]
                    \<and> dict_keys (image_sets ?s') = remove1 old (dict_keys ?d) @ [new]
                    \<and> last (page_order (refresh ?s')) = new"
  proof (cases "new \<in> set (dict_keys ?d) \<and> new \<noteq> old")
    case True
    then have "new \<in> set (dict_keys (dict_del old ?d))"
      by (simp add: dict_keys_del)
    then have "dict_keys (dict_set new html (dict_del old ?d)) = dict_keys (dict_del old ?d)"
      by (rule dict_keys_set_present)
    then have "dict_keys (image_sets ?s') = remove1 old (dict_keys ?d)"
      by (simp add: dict_keys_del)
    then show ?thesis
      by (subst if_P [OF True])
  next
    case False
    then have "new \<notin> set (dict_keys (dict_del old ?d))"
      using assms(1) by (auto simp: dict_keys_del)
    then have app: "dict_set new html (dict_del old ?d) = dict_del old ?d @ [(new, html)]"
      by (rule dict_set_fresh)
    then have keys: "dict_keys (image_sets ?s') = remove1 old (dict_keys ?d) @ [new]"
      using dict_keys_del [of old ?d] by (simp add: dict_keys_def)
    have a: "image_sets ?s' = dict_del old ?d @ [(new, html)]"
      using app by simp
    have l: "last (page_order (refresh ?s')) = new"
      unfolding ord keys by simp
    show ?thesis
      by (subst if_not_P [OF False]) (intro conjI a keys l)
  qed
  show ?thesis
    by (intro exI [of _ ?s'] exI [of _ html] conjI ev html got pos ord)
qed

theorem rename_moves_to_end_witness:
  "distinct (dict_keys (image_sets demo))
   \<and> ''A'' \<in> set (dict_keys (image_sets demo))
   \<and> (\<exists>s' html. rename_set ''A'' ''C'' demo = Inr s'
           \<and> dict_get ''A'' (image_sets demo) = Some html
           \<and> dict_get ''C'' (image_sets s') = Some html
           \<and> (if ''C'' \<in> set (dict_keys (image_sets demo)) \<and> ''C'' \<noteq> ''A''
               then dict_keys (image_sets s') = remove1 ''A'' (dict_keys (image_sets demo))
               else image_sets s' = dict_del ''A'' (image_sets demo) @ [(''C'', html)]
                    \<and> dict_keys (image_sets s') = remove1 ''A'' (dict_keys (image_sets demo)) @ [''C'']
                    \<and> last (page_order (refresh s')) = ''C'')
           \<and> page_order (refresh s') = dict_keys (image_sets s'))"
proof -
  have h1: "distinct (dict_keys (image_sets demo))"
    by (simp add: image_sets_demo dict_keys_def)
  have h2: "''A'' \<in> set (dict_keys (image_sets demo))"
    by (simp add: image_sets_demo dict_keys_def)
  show ?thesis
    using h1 h2 rename_moves_to_end [OF h1 h2, of "''C''"] by blast
qed

lemma rename_examples:
  "map_sum id (\<lambda>s. image_sets s) (rename_set ''A'' ''C'' demo) = Inr [(''B'', ''<img b>''), (''C'', ''<img a>'')]"
  "map_sum id (\<lambda>s. image_sets s) (rename_set ''A'' ''A'' demo) = Inr [(''B'', ''<img b>''), (''A'', ''<img a>'')]"
  "map_sum id (\<lambda>s. image_sets s) (rename_set ''A'' ''B'' demo) = Inr [(''B'', ''<img a>'')]"
  by (simp_all add: rename_set_def image_sets_demo dict_keys_def dict_get_def)

subsection \<open>Widgets and page set out of step\<close>

lemma set_dict_keys_set: "set (dict_keys (dict_set k v d)) = insert k (set (dict_keys d))"
  by (induction d) (auto simp: dict_keys_def)

lemma fst_set_dict_set: "fst ` set (dict_set k v d) = insert k (fst ` set d)"
  by (induction d) auto

lemma distinct_dict_set:
  "distinct (dict_keys d) \<Longrightarrow> distinct (dict_keys (dict_set k v d))"
  by (induction d) (auto simp: dict_keys_def fst_set_dict_set)

lemma distinct_dict_del:
  "distinct (dict_keys d) \<Longrightarrow> distinct (dict_keys (dict_del k d))"
  by (simp add: dict_keys_del)

lemma distinct_page_set_after:
  "distinct (dict_keys d) \<Longrightarrow> distinct (dict_keys (page_set_after c d))"
  by (cases c) (auto simp: distinct_dict_set distinct_dict_del split: option.splits)

lemma dict_get_None: "dict_get k d = None \<longleftrightarrow> k \<notin> set (dict_keys d)"
  by (induction d) (auto simp: dict_get_def dict_keys_def)

lemma dict_get_SomeD: "dict_get k d = Some v \<Longrightarrow> k \<in> set (dict_keys d)"
  using dict_get_None [of k d] by auto

lemma step_mutator:
  assumes "c \<noteq> Refresh" and "\<forall>n. c \<noteq> ToggleEvent n" and "c \<noteq> CloseAllClick"
  shows "step c s = Inr (s\<lparr>image_sets := page_set_after c (image_sets s)\<rparr>)"
  using assms
  by (cases c)
    (auto simp: add_set_def remove_set_def replace_set_def rename_set_def dict_get_None
      dest: dict_get_SomeD split: option.splits)

lemma close_all_eq_keys:
  assumes "distinct (dict_keys (image_sets s))"
    and "set (dict_keys (image_sets s)) \<subseteq> dom (buttons s)"
    and "set (dict_keys (image_sets s)) \<subseteq> dom (outputs s)"
  shows "close_all s =
           Inr (s\<lparr>buttons := (\<lambda>n. if n \<in> set (dict_keys (image_sets s))
                              then map_option (\<lambda>b. b\<lparr>tb_value := False, tb_description := ''Show '' @ n\<rparr>) (buttons s n)
                              else buttons s n),
             outputs := (\<lambda>n. if n \<in> set (dict_keys (image_sets s))
                              then (case buttons s n of
                                      None \<Rightarrow> outputs s n
                                    | Some b \<Rightarrow> map_option (\<lambda>out. out @ [ClearOutput]) (outputs s n))
                              else outputs s n)\<rparr>)"
proof -
  have "close_all s = Inr (fold closed_page (dict_keys (image_sets s)) s)"
    unfolding close_all_def using assms(2,3) by (rule for_each_close_one)
  also have "fold closed_page (dict_keys (image_sets s)) s = s\<lparr>buttons := (\<lambda>n. if n \<in> set (dict_keys (image_sets s))
                              then map_option (\<lambda>b. b\<lparr>tb_value := False, tb_description := ''Show '' @ n\<rparr>) (buttons s n)
                              else buttons s n),
             outputs := (\<lambda>n. if n \<in> set (dict_keys (image_sets s))
                              then (case buttons s n of
                                      None \<Rightarrow> outputs s n
                                    | Some b \<Rightarrow> map_option (\<lambda>out. out @ [ClearOutput]) (outputs s n))
                              else outputs s n)\<rparr>"
    using assms(1) by (rule fold_closed_page_eq)
  finally show ?thesis .
qed

lemma tracks_widgets:
  assumes "tracks ui opn s" and "name \<in> set ui"
  obtains b out where "buttons s name = Some b" and "outputs s name = Some out"
    and "tb_value b \<longleftrightarrow> name \<in> set opn"
proof -
  from assms have "name \<in> dom (buttons s)" and "name \<in> dom (outputs s)"
    by (simp_all add: tracks_def)
  then obtain b out where b: "buttons s name = Some b" and out: "outputs s name = Some out"
    by auto
  from assms(1) have "page_open s name \<longleftrightarrow> name \<in> set opn"
    by (simp add: tracks_def)
  with b have "tb_value b \<longleftrightarrow> name \<in> set opn"
    by (simp add: page_open_def)
  with b out show thesis by (rule that)
qed

lemma tracks_toggle_close:
  assumes "tracks ui opn s" and "name \<in> set ui" and "name \<in> set opn"
  shows "\<exists>s'. toggle_event name s = Inr s' \<and> tracks ui (removeAll name opn) s'
            \<and> image_sets s' = image_sets s"
proof -
  from assms(1,2) obtain b out where b: "buttons s name = Some b"
    and out: "outputs s name = Some out" and v: "tb_value b \<longleftrightarrow> name \<in> set opn"
    by (rule tracks_widgets)
  let ?s' = "s\<lparr>buttons := (buttons s)(name \<mapsto> b\<lparr>tb_value := False, tb_description := ''Show '' @ name\<rparr>),
                  outputs := (outputs s)(name \<mapsto> out @ [ClearOutput])\<rparr>"
  have ev: "toggle_event name s = Inr ?s'"
    using b v assms(3) out by (intro toggle_event_close) simp_all
  have op: "page_open ?s' n \<longleftrightarrow> n \<in> set (removeAll name opn)" for n
    using assms(1) by (simp add: tracks_def page_open_def)
  have tr: "tracks ui (removeAll name opn) ?s'"
    unfolding tracks_def
  proof (intro conjI allI)
    show "distinct (dict_keys (image_sets ?s'))" using assms(1) by (simp add: tracks_def)
    show "dom (buttons ?s') = set ui" using assms(1,2) by (auto simp: tracks_def)
    show "dom (outputs ?s') = set ui" using assms(1,2) by (auto simp: tracks_def)
    show "page_open ?s' n \<longleftrightarrow> n \<in> set (removeAll name opn)" for n by (rule op)
  qed
  show ?thesis
    by (intro exI [of _ ?s'] conjI ev tr) simp
qed

lemma tracks_toggle_open:
  assumes "tracks ui opn s" and "name \<in> set ui" and "name \<notin> set opn"
    and "name \<in> set (dict_keys (image_sets s))"
    and "set (dict_keys (image_sets s)) \<subseteq> set ui"
  shows "\<exists>s'. toggle_event name s = Inr s'
            \<and> tracks ui (name # filter (\<lambda>n. n \<notin> set (dict_keys (image_sets s))) opn) s'
            \<and> image_sets s' = image_sets s"
proof -
  from assms(1,2) obtain b out where b: "buttons s name = Some b"
    and out: "outputs s name = Some out" and v: "tb_value b \<longleftrightarrow> name \<in> set opn"
    by (rule tracks_widgets)
  from assms(4) obtain html where html: "dict_get name (image_sets s) = Some html"
    using dict_get_Some by blast
  let ?ks = "dict_keys (image_sets s)"
  let ?s' = "s\<lparr>buttons := (\<lambda>n. if n = name
                                   then Some (b\<lparr>tb_value := True, tb_description := ''Hide '' @ name\<rparr>)
                                   else if n \<in> set ?ks
                                   then map_option (shut_button n) (buttons s n)
                                   else buttons s n),
                  outputs := (\<lambda>n. if n = name then Some (out @ [ClearOutput, Display html])
                                   else if n \<in> set ?ks
                                   then (case buttons s n of
                                           None \<Rightarrow> outputs s n
                                         | Some b \<Rightarrow> map_option (shut_region b) (outputs s n))
                                   else outputs s n)\<rparr>"
  have d: "distinct ?ks" and db: "dom (buttons s) = set ui" and dout: "dom (outputs s) = set ui"
    and po: "\<And>n. page_open s n \<longleftrightarrow> n \<in> set opn"
    using assms(1) by (simp_all add: tracks_def)
  have ev: "toggle_event name s = Inr ?s'"
    using d assms(5) b v assms(3) out html
    by (intro toggle_event_open) (simp_all add: db dout)
  have op: "page_open ?s' n \<longleftrightarrow> n \<in> set (name # filter (\<lambda>n. n \<notin> set ?ks) opn)" for n
  proof (cases "n = name")
    case True
    then show ?thesis by (simp add: page_open_def)
  next
    case False
    show ?thesis
    proof (cases "n \<in> set ?ks")
      case True
      with False show ?thesis
        by (cases "buttons s n") (simp_all add: page_open_def)
    next
      case nk: False
      with False po [of n] show ?thesis
        by (simp add: page_open_def)
    qed
  qed
  have tr: "tracks ui (name # filter (\<lambda>n. n \<notin> set ?ks) opn) ?s'"
    unfolding tracks_def
  proof (intro conjI allI)
    show "distinct (dict_keys (image_sets ?s'))" using d by simp
    show "dom (buttons ?s') = set ui"
      using db assms(2) by (auto simp: dom_def split: if_splits)
    show "dom (outputs ?s') = set ui"
      using dout db assms(2) by (auto simp: dom_def split: if_splits option.splits)
    show "page_open ?s' n \<longleftrightarrow> n \<in> set (name # filter (\<lambda>n. n \<notin> set ?ks) opn)" for n
      by (rule op)
  qed
  show ?thesis
    by (intro exI [of _ ?s'] conjI ev tr) simp
qed

lemma tracks_close_all:
  assumes "tracks ui opn s" and "set (dict_keys (image_sets s)) \<subseteq> set ui"
  shows "\<exists>s'. close_all s = Inr s'
            \<and> tracks ui (filter (\<lambda>n. n \<notin> set (dict_keys (image_sets s))) opn) s'
            \<and> image_sets s' = image_sets s"
proof -
  let ?ks = "dict_keys (image_sets s)"
  let ?s' = "s\<lparr>buttons := (\<lambda>n. if n \<in> set ?ks
                              then map_option (\<lambda>b. b\<lparr>tb_value := False, tb_description := ''Show '' @ n\<rparr>) (buttons s n)
                              else buttons s n),
             outputs := (\<lambda>n. if n \<in> set ?ks
                              then (case buttons s n of
                                      None \<Rightarrow> outputs s n
                                    | Some b \<Rightarrow> map_option (\<lambda>out. out @ [ClearOutput]) (outputs s n))
                              else outputs s n)\<rparr>"
  have d: "distinct ?ks" and db: "dom (buttons s) = set ui" and dout: "dom (outputs s) = set ui"
    and po: "\<And>n. page_open s n \<longleftrightarrow> n \<in> set opn"
    using assms(1) by (simp_all add: tracks_def)
  have ev: "close_all s = Inr ?s'"
    using d assms(2) by (intro close_all_eq_keys) (simp_all add: db dout)
  have op: "page_open ?s' n \<longleftrightarrow> n \<in> set (filter (\<lambda>n. n \<notin> set ?ks) opn)" for n
  proof (cases "n \<in> set ?ks")
    case True
    then show ?thesis
      by (cases "buttons s n") (simp_all add: page_open_def)
  next
    case False
    with po [of n] show ?thesis by (simp add: page_open_def)
  qed
  have tr: "tracks ui (filter (\<lambda>n. n \<notin> set ?ks) opn) ?s'"
    unfolding tracks_def
  proof (intro conjI allI)
    show "distinct (dict_keys (image_sets ?s'))" using d by simp
    show "dom (buttons ?s') = set ui"
      using db by (auto simp: dom_def split: if_splits)
    show "dom (outputs ?s') = set ui"
      using dout db by (auto simp: dom_def split: if_splits option.splits)
    show "page_open ?s' n \<longleftrightarrow> n \<in> set (filter (\<lambda>n. n \<notin> set ?ks) opn)" for n
      by (rule op)
  qed
  show ?thesis
    by (intro exI [of _ ?s'] conjI ev tr) simp
qed

lemma tracks_refresh:
  assumes "distinct (dict_keys (image_sets s))"
  shows "tracks (dict_keys (image_sets s)) [] (refresh s)"
  using assms synced_refresh [OF assms]
  by (simp add: tracks_def synced_def image_sets_refresh)
    (simp add: refresh_eq page_open_def)

lemma tracks_mutator:
  assumes "tracks ui opn s"
  shows "tracks ui opn (s\<lparr>image_sets := page_set_after c (image_sets s)\<rparr>)"
  using assms distinct_page_set_after [of "image_sets s" c]
  by (simp add: tracks_def page_open_def)

lemma run_in_sync:
  assumes "tracks ui opn s" and "in_sync ui opn (image_sets s) cs"
  shows "\<exists>s'. run cs s = Inr s'"
  using assms
proof (induction cs arbitrary: s ui opn)
  case Nil
  show ?case by simp
next
  case (Cons c cs)
  have mut: "\<exists>s'. run (c # cs) s = Inr s'"
    if "c \<noteq> Refresh" and "\<forall>n. c \<noteq> ToggleEvent n" and "c \<noteq> CloseAllClick"
      and "in_sync ui opn (page_set_after c (image_sets s)) cs"
  proof -
    let ?s1 = "s\<lparr>image_sets := page_set_after c (image_sets s)\<rparr>"
    have st: "step c s = Inr ?s1"
      using that(1,2,3) by (rule step_mutator)
    have "tracks ui opn ?s1"
      using Cons.prems(1) by (rule tracks_mutator)
    moreover have "in_sync ui opn (image_sets ?s1) cs"
      using that(4) by simp
    ultimately have "\<exists>s'. run cs ?s1 = Inr s'"
      by (rule Cons.IH)
    with st show ?thesis by simp
  qed
  show ?case
  proof (cases c)
    case Refresh
    have d: "distinct (dict_keys (image_sets s))"
      using Cons.prems(1) by (simp add: tracks_def)
    have "tracks (dict_keys (image_sets s)) [] (refresh s)"
      using d by (rule tracks_refresh)
    moreover have "in_sync (dict_keys (image_sets s)) [] (image_sets (refresh s)) cs"
      using Cons.prems(2) Refresh by (simp add: image_sets_refresh)
    ultimately have "\<exists>s'. run cs (refresh s) = Inr s'"
      by (rule Cons.IH)
    with Refresh show ?thesis by simp
  next
    case (ToggleEvent name)
    with Cons.prems(2) have n: "name \<in> set ui" by simp
    show ?thesis
    proof (cases "name \<in> set opn")
      case True
      with Cons.prems(2) ToggleEvent
      have rest: "in_sync ui (removeAll name opn) (image_sets s) cs" by simp
      from Cons.prems(1) n True obtain s1 where s1: "toggle_event name s = Inr s1"
          "tracks ui (removeAll name opn) s1" "image_sets s1 = image_sets s"
        using tracks_toggle_close by blast
      from s1(2) rest s1(3) have "\<exists>s'. run cs s1 = Inr s'"
        by (intro Cons.IH) simp_all
      with ToggleEvent s1(1) show ?thesis by simp
    next
      case False
      let ?opn = "name # filter (\<lambda>n. n \<notin> set (dict_keys (image_sets s))) opn"
      from False Cons.prems(2) ToggleEvent
      have k: "name \<in> set (dict_keys (image_sets s))"
        and sub: "set (dict_keys (image_sets s)) \<subseteq> set ui"
        and rest: "in_sync ui ?opn (image_sets s) cs"
        by simp_all
      from Cons.prems(1) n False k sub obtain s1 where s1: "toggle_event name s = Inr s1"
          "tracks ui ?opn s1" "image_sets s1 = image_sets s"
        using tracks_toggle_open by blast
      from s1(2) rest s1(3) have "\<exists>s'. run cs s1 = Inr s'"
        by (intro Cons.IH) simp_all
      with ToggleEvent s1(1) show ?thesis by simp
    qed
  next
    case CloseAllClick
    let ?opn = "filter (\<lambda>n. n \<notin> set (dict_keys (image_sets s))) opn"
    from Cons.prems(2) CloseAllClick
    have sub: "set (dict_keys (image_sets s)) \<subseteq> set ui"
      and rest: "in_sync ui ?opn (image_sets s) cs"
      by simp_all
    from Cons.prems(1) sub obtain s1 where s1: "close_all s = Inr s1"
        "tracks ui ?opn s1" "image_sets s1 = image_sets s"
      using tracks_close_all by blast
    from s1(2) rest s1(3) have "\<exists>s'. run cs s1 = Inr s'"
      by (intro Cons.IH) simp_all
    with CloseAllClick s1(1) show ?thesis by simp
  next
    case (AddSet name html)
    with Cons.prems(2) show ?thesis by (intro mut) simp_all
  next
    case (RemoveSet name)
    with Cons.prems(2) show ?thesis by (intro mut) simp_all
  next
    case (ReplaceSet name html)
    with Cons.prems(2) show ?thesis by (intro mut) simp_all
  next
    case (RenameSet old new)
    with Cons.prems(2) show ?thesis by (intro mut) simp_all
  qed
qed

text \<open>
  C3, as the code has it. No lookup of the handlers fails, and the session runs to its
  end, in every session of \<^verbatim>\<open>add_set\<close>, \<^verbatim>\<open>remove_set\<close>, \<^verbatim>\<open>replace_set\<close>, \<^verbatim>\<open>rename_set\<close>,
  \<^verbatim>\<open>refresh\<close>, toggle events and close-all clicks in which every name of the page set
  has widgets at each close-all click and at each toggle event that opens a page, and the
  page that is opened is in the page set. A toggle event that closes a page needs
  neither. So \<^verbatim>\<open>remove_set\<close> with no refresh spoils nothing for the pages that remain.
\<close>

theorem handlers_succeed_in_sync:
  assumes "distinct (dict_keys d)" and "in_sync (dict_keys d) [] d cs"
  shows "\<exists>s'. run cs (init d close_all_shown style lay) = Inr s'"
proof -
  let ?s0 = "\<lparr>image_sets = d, include_close_all = close_all_shown, button_style = style,
              layout = lay, buttons = Map.empty, outputs = Map.empty, children = []\<rparr>"
  have "tracks (dict_keys (image_sets ?s0)) [] (refresh ?s0)"
    using assms(1) by (intro tracks_refresh) simp
  then have "tracks (dict_keys d) [] (refresh ?s0)" by simp
  moreover have "in_sync (dict_keys d) [] (image_sets (refresh ?s0)) cs"
    using assms(2) by (simp add: image_sets_refresh)
  ultimately show ?thesis
    unfolding init_def by (rule run_in_sync)
qed

theorem handlers_succeed_in_sync_witness:
  "distinct (dict_keys [(''A'', ''<img a>''), (''B'', ''<img b>'')])
   \<and> in_sync (dict_keys [(''A'', ''<img a>''), (''B'', ''<img b>'')]) []
         [(''A'', ''<img a>''), (''B'', ''<img b>'')]
         [ToggleEvent ''A'', ReplaceSet ''B'' ''<img b2>'', ToggleEvent ''B'',
          RemoveSet ''A'', ToggleEvent ''B'', CloseAllClick, ToggleEvent ''B'',
          AddSet ''C'' ''<img c>'', ToggleEvent ''B'', RenameSet ''B'' ''D'', Refresh,
          ToggleEvent ''D'', CloseAllClick, ToggleEvent ''C'']
   \<and> (\<exists>s'. run [ToggleEvent ''A'', ReplaceSet ''B'' ''<img b2>'', ToggleEvent ''B'',
          RemoveSet ''A'', ToggleEvent ''B'', CloseAllClick, ToggleEvent ''B'',
          AddSet ''C'' ''<img c>'', ToggleEvent ''B'', RenameSet ''B'' ''D'', Refresh,
          ToggleEvent ''D'', CloseAllClick, ToggleEvent ''C'']
         (init [(''A'', ''<img a>''), (''B'', ''<img b>'')] True '''' None) = Inr s')"
proof -
  have h1: "distinct (dict_keys [(''A'', ''<img a>''), (''B'', ''<img b>'')])"
    by (simp add: dict_keys_def)
  have h2: "in_sync (dict_keys [(''A'', ''<img a>''), (''B'', ''<img b>'')]) []
         [(''A'', ''<img a>''), (''B'', ''<img b>'')]
         [ToggleEvent ''A'', ReplaceSet ''B'' ''<img b2>'', ToggleEvent ''B'',
          RemoveSet ''A'', ToggleEvent ''B'', CloseAllClick, ToggleEvent ''B'',
          AddSet ''C'' ''<img c>'', ToggleEvent ''B'', RenameSet ''B'' ''D'', Refresh,
          ToggleEvent ''D'', CloseAllClick, ToggleEvent ''C'']"
    by (simp add: dict_keys_def dict_get_def)
  show ?thesis
    by (intro conjI h1 h2 handlers_succeed_in_sync [OF h1 h2])
qed

text \<open>
  The condition is the exact one: a session outside it stops with an error.
\<close>

lemma for_each_fails:
  assumes "k \<in> set ks" and "P s"
    and "\<And>s. P s \<Longrightarrow> \<exists>e. body k s = Inl e"
    and "\<And>n s s'. P s \<Longrightarrow> body n s = Inr s' \<Longrightarrow> P s'"
  shows "\<exists>e. for_each body ks s = Inl e"
  using assms(1,2)
proof (induction ks arbitrary: s)
  case Nil
  then show ?case by simp
next
  case (Cons h t)
  show ?case
  proof (cases "body h s")
    case (Inl e)
    then show ?thesis by simp
  next
    case (Inr s1)
    with Cons.prems(2) have p1: "P s1" using assms(4) by blast
    from Inr Cons.prems(2) assms(3) have "h \<noteq> k" by fastforce
    with Cons.prems(1) have "k \<in> set t" by simp
    then have "\<exists>e. for_each body t s1 = Inl e" using p1 by (rule Cons.IH)
    with Inr show ?thesis by simp
  qed
qed

lemma close_other_keeps_missing:
  assumes "outputs s k = None" and "close_other on_toggle name n s = Inr s'"
  shows "outputs s' k = None"
  using assms
  by (auto simp: close_other_def clear_output_def set_value_def on_toggle_def
      on_toggle_with_def hide_html_def set_description_def chg_def
      split: if_splits option.splits sum.splits)

lemma close_one_keeps_missing:
  assumes "buttons s k = None" and "close_one n s = Inr s'"
  shows "buttons s' k = None"
  using assms
  by (auto simp: close_one_def clear_output_def set_value_def on_toggle_def
      on_toggle_with_def hide_html_def set_description_def chg_def
      split: if_splits option.splits sum.splits)

lemma toggle_event_no_widget:
  assumes "tracks ui opn s" and "name \<notin> set ui"
  shows "toggle_event name s = Inl (NoWidget name)"
proof -
  from assms have "buttons s name = None" by (auto simp: tracks_def)
  then show ?thesis by (simp add: toggle_event_def)
qed

lemma toggle_event_open_fails:
  assumes "tracks ui opn s" and "name \<in> set ui" and "name \<notin> set opn"
    and "name \<notin> set (dict_keys (image_sets s)) \<or> \<not> set (dict_keys (image_sets s)) \<subseteq> set ui"
  shows "\<exists>e. toggle_event name s = Inl e"
proof -
  from assms(1,2) obtain b out where b: "buttons s name = Some b"
    and out: "outputs s name = Some out" and v: "tb_value b \<longleftrightarrow> name \<in> set opn"
    by (rule tracks_widgets)
  let ?s0 = "s\<lparr>buttons := (buttons s)(name \<mapsto> b\<lparr>tb_value := True\<rparr>)\<rparr>"
  have ev: "toggle_event name s =
      (case show_html on_toggle name ?s0 of
         Inl e \<Rightarrow> Inl e
       | Inr s1 \<Rightarrow> set_description name (''Hide '' @ name) s1)"
  proof -
    have "toggle_event name s = on_toggle (chg True) name ?s0"
      using b v assms(3) by (simp add: toggle_event_def set_value_def)
    also have "\<dots> = on_toggle_with on_toggle (chg True) name ?s0"
      using on_toggle_unfold by simp
    finally show ?thesis by (simp add: on_toggle_with_def chg_def)
  qed
  have "\<exists>e. show_html on_toggle name ?s0 = Inl e"
  proof (cases "name \<in> set (dict_keys (image_sets s))")
    case False
    then have "dict_get name (image_sets s) = None" by (simp add: dict_get_None)
    then show ?thesis using out by (simp add: show_html_def render_def clear_output_def)
  next
    case True
    with assms(4) obtain k where k: "k \<in> set (dict_keys (image_sets s))" "k \<notin> set ui"
      by auto
    from True obtain html where html: "dict_get name (image_sets s) = Some html"
      using dict_get_Some by blast
    let ?s1 = "?s0\<lparr>outputs := (outputs ?s0)(name \<mapsto> out @ [ClearOutput, Display html])\<rparr>"
    have r: "render name ?s0 = Inr ?s1"
      using out html by (intro render_Some) simp_all
    from k(2) assms(1,2) have kn: "k \<noteq> name" and miss: "outputs ?s1 k = None"
      by (auto simp: tracks_def)
    have "\<exists>e. for_each (close_other on_toggle name) (dict_keys (image_sets ?s1)) ?s1 = Inl e"
    proof (rule for_each_fails [where P = "\<lambda>s. outputs s k = None" and k = k])
      show "k \<in> set (dict_keys (image_sets ?s1))" using k(1) by simp
      show "outputs ?s1 k = None" by (rule miss)
      show "\<exists>e. close_other on_toggle name k s = Inl e" if "outputs s k = None" for s
        using that kn by (simp add: close_other_def clear_output_def)
      show "outputs s' k = None"
        if "outputs s k = None" and "close_other on_toggle name n s = Inr s'" for n s s'
        using that by (rule close_other_keeps_missing)
    qed
    then show ?thesis by (simp add: show_html_def r)
  qed
  then show ?thesis unfolding ev by auto
qed

lemma close_all_fails:
  assumes "tracks ui opn s" and "\<not> set (dict_keys (image_sets s)) \<subseteq> set ui"
  shows "\<exists>e. close_all s = Inl e"
proof -
  from assms(2) obtain k where k: "k \<in> set (dict_keys (image_sets s))" "k \<notin> set ui"
    by auto
  with assms(1) have miss: "buttons s k = None" by (auto simp: tracks_def)
  show ?thesis
    unfolding close_all_def
  proof (rule for_each_fails [where P = "\<lambda>s. buttons s k = None" and k = k])
    show "k \<in> set (dict_keys (image_sets s))" by (rule k(1))
    show "buttons s k = None" by (rule miss)
    show "\<exists>e. close_one k s = Inl e" if "buttons s k = None" for s
      using that by (simp add: close_one_def)
    show "buttons s' k = None"
      if "buttons s k = None" and "close_one n s = Inr s'" for n s s'
      using that by (rule close_one_keeps_missing)
  qed
qed

lemma in_sync_necessary:
  assumes "tracks ui opn s" and "run cs s = Inr s'"
  shows "in_sync ui opn (image_sets s) cs"
  using assms
proof (induction cs arbitrary: s ui opn)
  case Nil
  show ?case by simp
next
  case (Cons c cs)
  from Cons.prems(2) obtain s1 where st: "step c s = Inr s1" and rest: "run cs s1 = Inr s'"
    by (auto split: sum.splits)
  have mut: "in_sync ui opn (page_set_after c (image_sets s)) cs"
    if "c \<noteq> Refresh" and "\<forall>n. c \<noteq> ToggleEvent n" and "c \<noteq> CloseAllClick"
  proof -
    let ?s1 = "s\<lparr>image_sets := page_set_after c (image_sets s)\<rparr>"
    have "step c s = Inr ?s1" using that by (rule step_mutator)
    with st have "s1 = ?s1" by simp
    moreover have "tracks ui opn ?s1" using Cons.prems(1) by (rule tracks_mutator)
    ultimately have "in_sync ui opn (image_sets ?s1) cs"
      using rest Cons.IH by blast
    then show ?thesis by simp
  qed
  show ?case
  proof (cases c)
    case Refresh
    have d: "distinct (dict_keys (image_sets s))"
      using Cons.prems(1) by (simp add: tracks_def)
    have "tracks (dict_keys (image_sets s)) [] (refresh s)"
      using d by (rule tracks_refresh)
    moreover from st Refresh have "s1 = refresh s" by simp
    ultimately have "in_sync (dict_keys (image_sets s)) [] (image_sets (refresh s)) cs"
      using rest Cons.IH by blast
    with Refresh show ?thesis by (simp add: image_sets_refresh)
  next
    case (ToggleEvent name)
    with st have ev: "toggle_event name s = Inr s1" by simp
    have n: "name \<in> set ui"
    proof (rule ccontr)
      assume "name \<notin> set ui"
      with Cons.prems(1) have "toggle_event name s = Inl (NoWidget name)"
        by (rule toggle_event_no_widget)
      with ev show False by simp
    qed
    show ?thesis
    proof (cases "name \<in> set opn")
      case True
      from Cons.prems(1) n True obtain s2 where s2: "toggle_event name s = Inr s2"
          "tracks ui (removeAll name opn) s2" "image_sets s2 = image_sets s"
        using tracks_toggle_close by blast
      with ev have "s2 = s1" by simp
      with s2 rest have "in_sync ui (removeAll name opn) (image_sets s) cs"
        using Cons.IH by metis
      with ToggleEvent n True show ?thesis by simp
    next
      case False
      let ?opn = "name # filter (\<lambda>n. n \<notin> set (dict_keys (image_sets s))) opn"
      have ok: "name \<in> set (dict_keys (image_sets s))
                \<and> set (dict_keys (image_sets s)) \<subseteq> set ui"
      proof (rule ccontr)
        assume "\<not> ?thesis"
        then have "name \<notin> set (dict_keys (image_sets s))
                   \<or> \<not> set (dict_keys (image_sets s)) \<subseteq> set ui" by blast
        with Cons.prems(1) n False have "\<exists>e. toggle_event name s = Inl e"
          by (rule toggle_event_open_fails)
        with ev show False by auto
      qed
      with Cons.prems(1) n False obtain s2 where s2: "toggle_event name s = Inr s2"
          "tracks ui ?opn s2" "image_sets s2 = image_sets s"
        using tracks_toggle_open by blast
      with ev have "s2 = s1" by simp
      with s2 rest have "in_sync ui ?opn (image_sets s) cs"
        using Cons.IH by metis
      with ToggleEvent n False ok show ?thesis by simp
    qed
  next
    case CloseAllClick
    with st have ev: "close_all s = Inr s1" by simp
    let ?opn = "filter (\<lambda>n. n \<notin> set (dict_keys (image_sets s))) opn"
    have sub: "set (dict_keys (image_sets s)) \<subseteq> set ui"
    proof (rule ccontr)
      assume "\<not> ?thesis"
      with Cons.prems(1) have "\<exists>e. close_all s = Inl e" by (rule close_all_fails)
      with ev show False by auto
    qed
    with Cons.prems(1) obtain s2 where s2: "close_all s = Inr s2"
        "tracks ui ?opn s2" "image_sets s2 = image_sets s"
      using tracks_close_all by blast
    with ev have "s2 = s1" by simp
    with s2 rest have "in_sync ui ?opn (image_sets s) cs"
      using Cons.IH by metis
    with CloseAllClick sub show ?thesis by simp
  next
    case (AddSet name html)
    then show ?thesis using mut by simp
  next
    case (RemoveSet name)
    then show ?thesis using mut by simp
  next
    case (ReplaceSet name html)
    then show ?thesis using mut by simp
  next
    case (RenameSet old new)
    then show ?thesis using mut by simp
  qed
qed

lemma in_sync_exact:
  assumes "distinct (dict_keys d)"
  shows "(\<exists>s'. run cs (init d close_all_shown style lay) = Inr s')
           \<longleftrightarrow> in_sync (dict_keys d) [] d cs"
proof -
  let ?s0 = "\<lparr>image_sets = d, include_close_all = close_all_shown, button_style = style,
              layout = lay, buttons = Map.empty, outputs = Map.empty, children = []\<rparr>"
  have "tracks (dict_keys (image_sets ?s0)) [] (refresh ?s0)"
    using assms by (intro tracks_refresh) simp
  then have tr: "tracks (dict_keys d) [] (refresh ?s0)" by simp
  have im: "image_sets (refresh ?s0) = d" by (simp add: image_sets_refresh)
  show ?thesis
    unfolding init_def
    using run_in_sync [OF tr] in_sync_necessary [OF tr] im by metis
qed

text \<open>
  C3, as the specification words it, extends this to every event that arrives after the
  page set changed with no refresh. The mutators leave \<^verbatim>\<open>_buttons\<close> and \<^verbatim>\<open>_outputs\<close>
  alone, so a handler can look up a name that a dictionary lacks: an event that opens a
  page after \<^verbatim>\<open>add_set\<close> of a new page, an event that opens a page that \<^verbatim>\<open>remove_set\<close>
  removed, and a close-all click after \<^verbatim>\<open>rename_set\<close> to a new name each raise
  \<^verbatim>\<open>KeyError\<close>.
\<close>

theorem stale_widgets_counterexample:
  "run [AddSet ''C'' ''<img c>'', ToggleEvent ''A''] demo = Inl (KeyError ''C'')
   \<and> run [RemoveSet ''A'', ToggleEvent ''A''] demo = Inl (KeyError ''A'')
   \<and> run [RenameSet ''B'' ''D'', CloseAllClick] demo = Inl (KeyError ''D'')"
  by (simp add: demo_eq add_set_def remove_set_def rename_set_def toggle_event_def
      set_value_def on_toggle_def on_toggle_with_def show_html_def render_def
      clear_output_def close_other_def close_all_def close_one_def hide_html_def
      set_description_def chg_def dict_keys_def dict_get_def new_button_def)

end
